theory Spec2Isabelle
  imports Main "HOL-Library.AList"
begin

section \<open>Python values\<close>

text \<open>
  Exceptions are values. Only subclasses of Python's \<^verbatim>\<open>Exception\<close> are represented: they are
  what the \<^verbatim>\<open>except Exception\<close> handlers of the source catch. The string is \<^verbatim>\<open>str(e)\<close>.
\<close>

datatype exn =
    AssertionError string
  | IndexError string
  | AttributeError string
  | ValueError string
  | OSError string
  | RuntimeError string

fun exn_str :: "exn \<Rightarrow> string" where
  "exn_str (AssertionError m) = m"
| "exn_str (IndexError m) = m"
| "exn_str (AttributeError m) = m"
| "exn_str (ValueError m) = m"
| "exn_str (OSError m) = m"
| "exn_str (RuntimeError m) = m"

text \<open>
  The content of the nested mappings handled by the ingestion code: what \<^verbatim>\<open>json.load\<close> returns
  and \<^verbatim>\<open>json.dump\<close> writes. A \<^verbatim>\<open>dict\<close> is an association list in insertion order; the
  assignment \<^verbatim>\<open>d[k] = v\<close> is \<^const>\<open>AList.update\<close> (in place for a key already present, appended
  otherwise) and \<^verbatim>\<open>d.get(k)\<close> is \<^const>\<open>map_of\<close>. Numbers are integers: the code under study
  never inspects a number. A \<open>json\<close> term is a value; the \<^verbatim>\<open>dict\<close> objects that hold such values
  while \<^verbatim>\<open>deep_update\<close> runs are modelled in the next section.
\<close>

datatype json =
    JNull
  | JBool bool
  | JNum int
  | JStr string
  | JList "json list"
  | JDict "(string \<times> json) list"

type_synonym dict = "(string \<times> json) list"

text \<open>Python truthiness (\<^verbatim>\<open>if not x\<close>) and \<^verbatim>\<open>d.get(k)\<close> with its default \<^verbatim>\<open>None\<close>.\<close>

fun truthy :: "json \<Rightarrow> bool" where
  "truthy JNull = False"
| "truthy (JBool b) = b"
| "truthy (JNum n) = (n \<noteq> 0)"
| "truthy (JStr s) = (s \<noteq> [])"
| "truthy (JList xs) = (xs \<noteq> [])"
| "truthy (JDict kvs) = (kvs \<noteq> [])"

definition dict_get :: "dict \<Rightarrow> string \<Rightarrow> json" where
  "dict_get d k = (case map_of d k of None \<Rightarrow> JNull | Some v \<Rightarrow> v)"

section \<open>\<^verbatim>\<open>deep_update\<close>: the deep merge of the reconciliation pass\<close>

text \<open>
  \<^verbatim>\<open>deep_update(d, u)\<close> is defined twice in \<^verbatim>\<open>ingest_component.py\<close> (inside both
  \<^verbatim>\<open>save_task\<close> functions) with the same body:
  \<^verbatim>\<open>
    if not isinstance(u, dict): return d
    for k, v in u.items():
        if isinstance(v, dict):
            if not isinstance(d.get(k), dict) or not d.get(k): d[k] = v
            else: d[k] = deep_update(d.get(k, {}), v)
        else: d[k] = v
    return d
  \<close>
  It mutates \<^verbatim>\<open>d\<close> in place and returns the same object, and \<^verbatim>\<open>d[k] = v\<close> stores the overlay's
  sub-dictionary \<^verbatim>\<open>v\<close> itself, not a copy. What a call leaves behind therefore depends on which
  \<^verbatim>\<open>dict\<close> objects the two arguments share, so dictionaries are objects in a store.

  A \<open>val\<close> is what a variable or a dictionary slot holds: an immutable value, a list, or the
  address \<open>VRef a\<close> of a \<^verbatim>\<open>dict\<close> object. The store maps an address to the items of the object,
  in insertion order; an address that was never allocated holds no items. Lists are held by
  value: \<^verbatim>\<open>deep_update\<close> never looks inside a list and never changes one.
\<close>

datatype val =
    VNull
  | VBool bool
  | VNum int
  | VStr string
  | VList "val list"
  | VRef nat

type_synonym obj = "(string \<times> val) list"

type_synonym heap = "nat \<Rightarrow> obj"

text \<open>
  \<open>deep_update n h d u\<close> is the call \<^verbatim>\<open>deep_update(d, u)\<close> in the store \<open>h\<close>, where \<open>d\<close> is the address
  of the base dictionary (the first argument is a dictionary at every call site) and \<open>n\<close> is the
  number of nested calls the interpreter still allows: a call made when none is left raises
  \<^verbatim>\<open>RecursionError\<close>, a subclass of \<^verbatim>\<open>RuntimeError\<close>. The result is the exception raised, or the
  store when the call returns; the value returned is \<open>d\<close> itself.

  \<open>update_items n h d ua len i\<close> is the loop \<^verbatim>\<open>for k, v in u.items()\<close> from its \<open>i\<close>-th step on.
  The iterator reads the overlay object \<open>ua\<close> as it is at that step, not as it was when the loop
  began, and raises \<^verbatim>\<open>RuntimeError\<close> when the object no longer has the \<open>len\<close> items it had at the
  start. \<open>update_entry n h d k v\<close> is the loop body. In its recursive branch the callee returns
  the object \<open>da\<close> it was given, and that address is stored again under \<open>k\<close> in the base as it is
  after the inner call.
\<close>

function (sequential) deep_update :: "nat \<Rightarrow> heap \<Rightarrow> nat \<Rightarrow> val \<Rightarrow> exn + heap"
  and update_items :: "nat \<Rightarrow> heap \<Rightarrow> nat \<Rightarrow> nat \<Rightarrow> nat \<Rightarrow> nat \<Rightarrow> exn + heap"
  and update_entry :: "nat \<Rightarrow> heap \<Rightarrow> nat \<Rightarrow> string \<Rightarrow> val \<Rightarrow> exn + heap"
where
  "deep_update 0 h d u = Inl (RuntimeError ''maximum recursion depth exceeded'')"
| "deep_update (Suc n) h d (VRef ua) = update_items n h d ua (length (h ua)) 0"
| "deep_update (Suc n) h d u = Inr h"
| "update_items n h d ua len i =
     (if length (h ua) \<noteq> len then
        Inl (RuntimeError ''dictionary changed size during iteration'')
      else if len \<le> i then Inr h
      else
        (case update_entry n h d (fst (h ua ! i)) (snd (h ua ! i)) of
           Inl e \<Rightarrow> Inl e
         | Inr h1 \<Rightarrow> update_items n h1 d ua len (Suc i)))"
| "update_entry n h d k v =
     (case v of
        VRef va \<Rightarrow>
          (case map_of (h d) k of
             Some (VRef da) \<Rightarrow>
               if h da = [] then Inr (h(d := AList.update k v (h d)))
               else
                 (case deep_update n h da v of
                    Inl e \<Rightarrow> Inl e
                  | Inr h1 \<Rightarrow> Inr (h1(d := AList.update k (VRef da) (h1 d))))
           | _ \<Rightarrow> Inr (h(d := AList.update k v (h d))))
      | _ \<Rightarrow> Inr (h(d := AList.update k v (h d))))"
  by pat_completeness auto
termination
  by (relation "inv_image (less_than <*lex*> less_than)
        (\<lambda>x. case x of
           Inl (n, h, d, u) \<Rightarrow> (3 * n, 0)
         | Inr (Inl (n, h, d, ua, len, i)) \<Rightarrow> (3 * n + 2, len - i)
         | Inr (Inr (n, h, d, k, v)) \<Rightarrow> (3 * n + 1, 0))")
     auto

declare update_items.simps [simp del]

text \<open>
  Reading a value out of the store. \<open>tree_at h v t = Some F\<close> says that \<open>v\<close> holds the content \<open>t\<close>
  in the store \<open>h\<close> and that the \<^verbatim>\<open>dict\<close> objects reached from \<open>v\<close>, the set \<open>F\<close>, are reached by one
  path each: no object is shared between two slots and none contains itself. This is the shape
  of what \<^verbatim>\<open>json.load\<close> builds. The result is \<open>None\<close> when the content differs, when a dictionary
  lists a key twice, or when an object is reached twice.
\<close>

fun tree_at :: "heap \<Rightarrow> val \<Rightarrow> json \<Rightarrow> nat set option"
and tree_items :: "heap \<Rightarrow> obj \<Rightarrow> dict \<Rightarrow> nat set option"
and tree_list :: "heap \<Rightarrow> val list \<Rightarrow> json list \<Rightarrow> nat set option"
where
  "tree_at h VNull JNull = Some {}"
| "tree_at h (VBool b) (JBool c) = (if b = c then Some {} else None)"
| "tree_at h (VNum n) (JNum m) = (if n = m then Some {} else None)"
| "tree_at h (VStr s) (JStr t) = (if s = t then Some {} else None)"
| "tree_at h (VList vs) (JList ts) = tree_list h vs ts"
| "tree_at h (VRef a) (JDict kvs) =
     (case tree_items h (h a) kvs of
        None \<Rightarrow> None
      | Some F \<Rightarrow> if a \<in> F then None else Some (insert a F))"
| "tree_at h v t = None"
| "tree_items h [] [] = Some {}"
| "tree_items h ((k, v) # r) ((k', t) # r') =
     (if k = k' \<and> k \<notin> fst ` set r then
        (case tree_at h v t of
           None \<Rightarrow> None
         | Some F1 \<Rightarrow>
             (case tree_items h r r' of
                None \<Rightarrow> None
              | Some F2 \<Rightarrow> if F1 \<inter> F2 = {} then Some (F1 \<union> F2) else None))
      else None)"
| "tree_items h r r' = None"
| "tree_list h [] [] = Some {}"
| "tree_list h (v # vs) (t # ts) =
     (case tree_at h v t of
        None \<Rightarrow> None
      | Some F1 \<Rightarrow>
          (case tree_list h vs ts of
             None \<Rightarrow> None
           | Some F2 \<Rightarrow> if F1 \<inter> F2 = {} then Some (F1 \<union> F2) else None))"
| "tree_list h vs ts = None"

text \<open>
  How deep dictionaries are nested inside dictionaries: the number of nested calls
  \<^verbatim>\<open>deep_update\<close> may need for an overlay. Lists do not count, the function does not enter them.
\<close>

fun nesting :: "json \<Rightarrow> nat"
and nesting_items :: "dict \<Rightarrow> nat"
where
  "nesting (JDict kvs) = Suc (nesting_items kvs)"
| "nesting JNull = 0"
| "nesting (JBool b) = 0"
| "nesting (JNum n) = 0"
| "nesting (JStr s) = 0"
| "nesting (JList ts) = 0"
| "nesting_items [] = 0"
| "nesting_items ((k, t) # r) = max (nesting t) (nesting_items r)"

text \<open>
  The specification's \<^verbatim>\<open>deep_merge(base, overlay)\<close>, a function from two values to a value: for
  each key of the overlay, an overlay mapping is merged recursively into a non-empty base
  mapping and otherwise the overlay value replaces the base value. \<open>deep_merge\<close> follows the
  words of the specification; \<open>deep_update\<close> above is the code. Lemma \<open>deep_update_merges\<close>
  below relates the two: on arguments that share no \<^verbatim>\<open>dict\<close> object, \<open>deep_update\<close> leaves in the
  base object the content \<open>deep_merge\<close> computes.
\<close>

fun deep_merge :: "dict \<Rightarrow> json \<Rightarrow> dict"
and deep_merge_items :: "dict \<Rightarrow> dict \<Rightarrow> dict"
where
  "deep_merge d (JDict u) = deep_merge_items d u"
| "deep_merge d JNull = d"
| "deep_merge d (JBool b) = d"
| "deep_merge d (JNum n) = d"
| "deep_merge d (JStr s) = d"
| "deep_merge d (JList xs) = d"
| "deep_merge_items d [] = d"
| "deep_merge_items d ((k, v) # rest) =
     deep_merge_items
       (case v of
          JDict vs \<Rightarrow>
            (case map_of d k of
               Some (JDict dk) \<Rightarrow>
                 if dk = [] then AList.update k v d
                 else AList.update k (JDict (deep_merge dk v)) d
             | _ \<Rightarrow> AList.update k v d)
        | _ \<Rightarrow> AList.update k v d)
       rest"

text \<open>
  The merge rule for one key: the value stored at a key of the overlay, given what the base
  holds there (\<open>None\<close> when the base has no such key).
\<close>

definition merge_value :: "json option \<Rightarrow> json \<Rightarrow> json" where
  "merge_value base v =
     (case v of
        JDict vs \<Rightarrow>
          (case base of
             Some (JDict ds) \<Rightarrow> if ds \<noteq> [] then JDict (deep_merge ds v) else v
           | _ \<Rightarrow> v)
      | _ \<Rightarrow> v)"

text \<open>
  Two notions used in the proofs only. \<open>settled h d u t\<close>: the base object \<open>d\<close> already holds
  everything the overlay \<open>u\<close> (of content \<open>t\<close>) would store in it; at a key whose overlay value is
  a dictionary, the base holds either that very object or a non-empty object that is settled
  in turn. \<open>touched h d bt ks\<close>: the objects a loop over the keys \<open>ks\<close> may write to, namely \<open>d\<close>
  and what the base (of content \<open>bt\<close>) holds under those keys.
\<close>

fun settled :: "heap \<Rightarrow> nat \<Rightarrow> val \<Rightarrow> json \<Rightarrow> bool"
and settled_items :: "heap \<Rightarrow> nat \<Rightarrow> obj \<Rightarrow> dict \<Rightarrow> bool"
where
  "settled h d (VRef ua) (JDict ot) = settled_items h d (h ua) ot"
| "settled h d v t = True"
| "settled_items h d ((k, v) # r) ((k', t) # r') =
     ((case v of
         VRef va \<Rightarrow>
           (case map_of (h d) k of
              Some (VRef c) \<Rightarrow> c = va \<or> (h c \<noteq> [] \<and> settled h c v t)
            | _ \<Rightarrow> False)
       | _ \<Rightarrow> map_of (h d) k = Some v)
      \<and> settled_items h d r r')"
| "settled_items h d r r' = True"

definition touched :: "heap \<Rightarrow> nat \<Rightarrow> dict \<Rightarrow> string set \<Rightarrow> nat set" where
  "touched h d bt ks =
     insert d (\<Union>{F. \<exists>k v t. k \<in> ks \<and> map_of (h d) k = Some v \<and> map_of bt k = Some t
                         \<and> tree_at h v t = Some F})"

text \<open>
  The two statements proved by induction on the number of nested calls. \<open>merges n\<close>: with \<open>n\<close>
  calls allowed, on a base and an overlay that are trees sharing no object and an overlay
  nested no deeper than \<open>n\<close>, \<open>deep_update\<close> returns, the base object then holds the content
  \<open>deep_merge\<close> computes and is a tree built from objects of the two arguments, no object
  outside the base is written to, and the base is settled. \<open>repeats n\<close>: on a settled base,
  \<open>deep_update\<close> returns and leaves the store as it was.
\<close>

definition merges :: "nat \<Rightarrow> bool" where
  "merges n \<longleftrightarrow>
     (\<forall>h d bt ua ot Fd Fu.
        tree_at h (VRef d) (JDict bt) = Some Fd \<longrightarrow>
        tree_at h (VRef ua) (JDict ot) = Some Fu \<longrightarrow>
        Fd \<inter> Fu = {} \<longrightarrow>
        nesting (JDict ot) \<le> n \<longrightarrow>
        (\<exists>h' Fd'. deep_update n h d (VRef ua) = Inr h'
           \<and> tree_at h' (VRef d) (JDict (deep_merge bt (JDict ot))) = Some Fd'
           \<and> Fd' \<subseteq> Fd \<union> Fu
           \<and> (\<forall>a. a \<notin> Fd \<longrightarrow> h' a = h a)
           \<and> settled h' d (VRef ua) (JDict ot)))"

definition repeats :: "nat \<Rightarrow> bool" where
  "repeats n \<longleftrightarrow>
     (\<forall>h d ua ot Fu.
        tree_at h (VRef ua) (JDict ot) = Some Fu \<longrightarrow>
        settled h d (VRef ua) (JDict ot) \<longrightarrow>
        nesting (JDict ot) \<le> n \<longrightarrow>
        deep_update n h d (VRef ua) = Inr h)"

text \<open>
  \<^verbatim>\<open>batch_fields(fields, batch_size)\<close> and \<^verbatim>\<open>batch_nodes(nodes, batch_size)\<close> have the same body:
  they yield the slices \<^verbatim>\<open>fields[i:i+batch_size]\<close> for \<^verbatim>\<open>i\<close> in
  \<^verbatim>\<open>range(0, len(fields), batch_size)\<close>. A step of \<open>0\<close> makes \<^verbatim>\<open>range\<close> raise in Python; the source
  passes the constant \<open>10\<close> to \<^verbatim>\<open>batch_fields\<close>, and the model yields no batch for a step of \<open>0\<close>.
\<close>

function batch_fields :: "'a list \<Rightarrow> nat \<Rightarrow> 'a list list" where
  "batch_fields fields batch_size =
     (if batch_size = 0 \<or> fields = [] then []
      else take batch_size fields # batch_fields (drop batch_size fields) batch_size)"
  by pat_completeness auto
termination
  by (relation "measure (\<lambda>(fields, batch_size). length fields)") auto

declare batch_fields.simps [simp del]

section \<open>\<^verbatim>\<open>PipelineIngestComponent\<close>: queues and the writer stage\<close>

record document =
  doc_id :: string
  doc_text :: string
  metadata :: dict

definition NODE_FLUSH_COUNT :: nat where
  "NODE_FLUSH_COUNT = 5000"

text \<open>
  What \<^verbatim>\<open>PipelineIngestComponent.__init__\<close> sets up after the base class has loaded the index:
  the two assertions, the semaphore \<^verbatim>\<open>multiprocessing.Semaphore(self.count_workers)\<close>, and the
  queues \<^verbatim>\<open>Queue(20)\<close> and \<^verbatim>\<open>Queue(40)\<close>. A positive \<^verbatim>\<open>maxsize\<close> is the capacity of a \<^verbatim>\<open>Queue\<close>.
\<close>

record pipeline_config =
  count_workers :: int
  doc_semaphore :: int
  doc_q_maxsize :: nat
  node_q_maxsize :: nat

definition pipeline_init :: "nat \<Rightarrow> int \<Rightarrow> exn + pipeline_config" where
  "pipeline_init n_transformations workers =
     (if \<not> n_transformations \<ge> 2 then
        Inl (AssertionError ''Embeddings must be in the transformations'')
      else if \<not> workers > 0 then
        Inl (AssertionError ''count_workers must be > 0'')
      else
        Inr \<lparr>count_workers = workers, doc_semaphore = workers,
             doc_q_maxsize = 20, node_q_maxsize = 40\<rparr>)"

text \<open>
  The index is an external collaborator. Its state is the log of the calls made on it:
  \<^verbatim>\<open>insert_nodes\<close>, \<^verbatim>\<open>docstore.set_document_hash\<close> and \<^verbatim>\<open>storage_context.persist\<close>. Nodes are
  opaque (type \<open>'n\<close>).
\<close>

datatype 'n index_op =
    InsertNodes "'n list"
  | SetDocumentHash string
  | Persist

text \<open>
  Where a flush raises, if it does: inside \<^verbatim>\<open>insert_nodes\<close> after some of the nodes went in,
  at the \<open>i\<close>-th \<^verbatim>\<open>set_document_hash\<close>, or in \<^verbatim>\<open>_save_index\<close>.
\<close>

datatype flush_fault =
    NoFault
  | InsertRaises nat
  | HashRaises nat
  | PersistRaises

text \<open>
  The items of \<^verbatim>\<open>node_q\<close>. The producers put \<^verbatim>\<open>("process", file_name, documents, list(nodes))\<close>
  and \<^verbatim>\<open>("flush", None, None, None)\<close>; the writer also understands \<^verbatim>\<open>"quit"\<close>.
\<close>

datatype 'n node_cmd =
    Process string "document list" "'n list"
  | Flush
  | Quit

record 'n writer =
  node_stack :: "'n list"
  doc_stack :: "document list"
  file_stack :: "string list"
  index_log :: "'n index_op list"
  flushes :: nat

text \<open>The \<^verbatim>\<open>try\<close> block of \<^verbatim>\<open>_save_docs\<close>: its outcome and the calls that reached the index.\<close>

definition flush_body ::
  "flush_fault \<Rightarrow> document list \<Rightarrow> 'n list \<Rightarrow> (exn + unit) \<times> 'n index_op list" where
  "flush_body fault documents nodes =
     (case fault of
        InsertRaises n \<Rightarrow> (Inl (RuntimeError ''insert_nodes''), [InsertNodes (take n nodes)])
      | HashRaises i \<Rightarrow>
          (Inl (RuntimeError ''set_document_hash''),
           InsertNodes nodes # map (\<lambda>d. SetDocumentHash (doc_id d)) (take i documents))
      | PersistRaises \<Rightarrow>
          (Inl (OSError ''persist''),
           InsertNodes nodes # map (\<lambda>d. SetDocumentHash (doc_id d)) documents)
      | NoFault \<Rightarrow>
          (Inr (),
           InsertNodes nodes # map (\<lambda>d. SetDocumentHash (doc_id d)) documents @ [Persist]))"

text \<open>
  \<^verbatim>\<open>PipelineIngestComponent._save_docs(files, documents, nodes)\<close>, called on the three stacks.
  The \<^verbatim>\<open>except Exception\<close> handler only logs; the \<^verbatim>\<open>finally\<close> block clears the three lists.
  \<open>faults\<close> tells how the \<open>n\<close>-th flush attempt of the run ends.
\<close>

definition save_docs :: "(nat \<Rightarrow> flush_fault) \<Rightarrow> 'n writer \<Rightarrow> 'n writer" where
  "save_docs faults w =
     (let (r, ops) = flush_body (faults (flushes w)) (doc_stack w) (node_stack w);
          w1 = w\<lparr>index_log := index_log w @ ops, flushes := Suc (flushes w)\<rparr>;
          w2 = (case r of Inl e \<Rightarrow> w1 | Inr u \<Rightarrow> w1)
      in w2\<lparr>node_stack := [], doc_stack := [], file_stack := []\<rparr>)"

text \<open>One iteration of the \<^verbatim>\<open>while True\<close> loop of \<^verbatim>\<open>_write_nodes\<close>, on the item taken from the queue.\<close>

fun write_step :: "(nat \<Rightarrow> flush_fault) \<Rightarrow> 'n node_cmd \<Rightarrow> 'n writer \<Rightarrow> 'n writer" where
  "write_step faults (Process file_name documents nodes) w =
     (let w1 = w\<lparr>node_stack := node_stack w @ nodes,
                 doc_stack := doc_stack w @ documents,
                 file_stack := file_stack w @ [file_name]\<rparr>
      in if length (node_stack w1) \<ge> NODE_FLUSH_COUNT then save_docs faults w1 else w1)"
| "write_step faults Flush w = (if file_stack w \<noteq> [] then save_docs faults w else w)"
| "write_step faults Quit w = (if file_stack w \<noteq> [] then save_docs faults w else w)"

text \<open>
  \<^verbatim>\<open>_write_nodes\<close> on the items that arrive on \<^verbatim>\<open>node_q\<close>, in order; \<^verbatim>\<open>"quit"\<close> breaks out of the
  loop, so later items are not read.
\<close>

fun write_nodes :: "(nat \<Rightarrow> flush_fault) \<Rightarrow> 'n node_cmd list \<Rightarrow> 'n writer \<Rightarrow> 'n writer" where
  "write_nodes faults [] w = w"
| "write_nodes faults (Quit # rest) w = write_step faults Quit w"
| "write_nodes faults (c # rest) w = write_nodes faults rest (write_step faults c w)"

definition writer_init :: "'n writer" where
  "writer_init =
     \<lparr>node_stack = [], doc_stack = [], file_stack = [], index_log = [], flushes = 0\<rparr>"

text \<open>The nodes handed to the writer by a sequence of queue items, and those that reached the index.\<close>

fun received :: "'n node_cmd list \<Rightarrow> 'n list" where
  "received [] = []"
| "received (Process f ds ns # rest) = ns @ received rest"
| "received (Flush # rest) = received rest"
| "received (Quit # rest) = []"

fun inserted :: "'n index_op list \<Rightarrow> 'n list" where
  "inserted [] = []"
| "inserted (InsertNodes ns # ops) = ns @ inserted ops"
| "inserted (opn # ops) = inserted ops"


section \<open>\<^verbatim>\<open>ExtractionComponent.extract_document\<close>\<close>

text \<open>
  The files under \<^verbatim>\<open>local_data_path / "extraction_results"\<close>, addressed by directory name and
  file name. A file opened for writing whose \<^verbatim>\<open>json.dump\<close> did not finish is left truncated.
\<close>

datatype file_content = Complete json | Truncated

type_synonym fs = "string \<times> string \<Rightarrow> file_content option"

datatype write_outcome = WriteOk | OpenRaises | DumpRaises

text \<open>\<^verbatim>\<open>with open(path, "w") as f: json.dump(content, f, indent=2)\<close>\<close>

definition write_json ::
  "write_outcome \<Rightarrow> string \<times> string \<Rightarrow> json \<Rightarrow> fs \<Rightarrow> (exn + unit) \<times> fs" where
  "write_json outcome path content files =
     (case outcome of
        WriteOk \<Rightarrow> (Inr (), files(path \<mapsto> Complete content))
      | OpenRaises \<Rightarrow> (Inl (OSError ''open''), files)
      | DumpRaises \<Rightarrow> (Inl (OSError ''write''), files(path \<mapsto> Truncated)))"

text \<open>
  The extraction agent of the \<^verbatim>\<open>LlamaExtract\<close> service: \<^verbatim>\<open>agent.extract(temp_path).data\<close> as a
  function of the content written to the temporary file.
\<close>

type_synonym agent = "json \<Rightarrow> exn + json"

text \<open>
  What the environment does during one call of \<^verbatim>\<open>extract_document\<close>: the value of
  \<^verbatim>\<open>uuid.uuid4()\<close>, the clock, and the outcome of every call that can fail.
\<close>

record xenv =
  uuid4 :: string
  now_iso :: string
  chunks_mkdir :: "exn option"
  chunks_write :: write_outcome
  get_agent :: "exn + agent"
  create_agent :: "exn + agent"
  temp_file :: "exn option"
  result_mkdir :: "exn option"
  result_write :: write_outcome
  unlink :: "exn option"

text \<open>The chunk built from one document: its text and the metadata entries that are not \<^verbatim>\<open>None\<close>.\<close>

definition chunk_of :: "document \<Rightarrow> json" where
  "chunk_of doc =
     JDict [(''text'', JStr (doc_text doc)),
            (''metadata'',
             JDict (filter (\<lambda>kv. snd kv \<noteq> JNull)
                      [(''page'', dict_get (metadata doc) ''page''),
                       (''bbox'', dict_get (metadata doc) ''bbox''),
                       (''chunk_type'', dict_get (metadata doc) ''chunk_type'')]))]"

definition get_agent_name_for_type :: "string \<Rightarrow> string" where
  "get_agent_name_for_type document_type =
     (case map_of [(''Insurance'', ''insurance-parser''), (''Contract'', ''contract-parser''),
                   (''Invoice'', ''invoice-parser''), (''Benefit'', ''benefit-summary-parser'')]
             document_type of
        None \<Rightarrow> ''default-parser'' | Some a \<Rightarrow> a)"

text \<open>\<^verbatim>\<open>_store_extraction_data\<close>: make the directory and write \<^verbatim>\<open>chunks.json\<close>.\<close>

definition store_extraction_data ::
  "xenv \<Rightarrow> string \<Rightarrow> json list \<Rightarrow> string \<Rightarrow> string \<Rightarrow> fs \<Rightarrow> (exn + unit) \<times> fs" where
  "store_extraction_data env extraction_id chunks document_type file_name files =
     (case chunks_mkdir env of
        Some e \<Rightarrow> (Inl e, files)
      | None \<Rightarrow>
          write_json (chunks_write env) (extraction_id, ''chunks.json'')
            (JDict [(''chunks'', JList chunks), (''document_type'', JStr document_type),
                    (''file_name'', JStr file_name)])
            files)"

text \<open>The two mappings that \<^verbatim>\<open>extract_document\<close> can return, and the record it stores.\<close>

definition completed_mapping :: "string \<Rightarrow> string \<Rightarrow> string \<Rightarrow> string \<Rightarrow> json \<Rightarrow> dict" where
  "completed_mapping extraction_id doc document_type file_name result =
     [(''extraction_id'', JStr extraction_id), (''doc_id'', JStr doc),
      (''document_type'', JStr document_type), (''file_name'', JStr file_name),
      (''status'', JStr ''completed''), (''result'', result)]"

definition error_mapping :: "exn \<Rightarrow> string \<Rightarrow> string \<Rightarrow> dict" where
  "error_mapping e document_type file_name =
     [(''error'', JStr (exn_str e)), (''document_type'', JStr document_type),
      (''file_name'', JStr file_name), (''status'', JStr ''error'')]"

definition stored_record ::
  "string \<Rightarrow> string \<Rightarrow> string \<Rightarrow> string \<Rightarrow> json \<Rightarrow> string \<Rightarrow> json" where
  "stored_record extraction_id doc document_type file_name result timestamp =
     JDict (completed_mapping extraction_id doc document_type file_name result
            @ [(''timestamp'', JStr timestamp)])"

text \<open>
  The inner \<^verbatim>\<open>try\<close> block: run the agent, create the directory, write \<^verbatim>\<open>result.json\<close>,
  return the mapping with status \<^verbatim>\<open>completed\<close>.
\<close>

definition extract_and_store ::
  "xenv \<Rightarrow> agent \<Rightarrow> json \<Rightarrow> string \<Rightarrow> string \<Rightarrow> string \<Rightarrow> string \<Rightarrow> fs
     \<Rightarrow> (exn + dict) \<times> fs" where
  "extract_and_store env benefit_agent content extraction_id document_type file_name doc files =
     (case benefit_agent content of
        Inl e \<Rightarrow> (Inl e, files)
      | Inr result \<Rightarrow>
          (case result_mkdir env of
             Some e \<Rightarrow> (Inl e, files)
           | None \<Rightarrow>
               (case write_json (result_write env) (doc, ''result.json'')
                       (stored_record extraction_id doc document_type file_name result
                          (now_iso env))
                       files of
                  (Inl e, files1) \<Rightarrow> (Inl e, files1)
                | (Inr u, files1) \<Rightarrow>
                    (Inr (completed_mapping extraction_id doc document_type file_name result),
                     files1))))"

text \<open>
  \<^verbatim>\<open>try: ... finally: cleanup\<close>: an exception raised by the cleanup replaces the outcome of the
  block, also when the block was returning a value.
\<close>

definition try_finally :: "(exn + 'a) \<times> 's \<Rightarrow> exn option \<Rightarrow> (exn + 'a) \<times> 's" where
  "try_finally r cleanup = (case cleanup of Some e \<Rightarrow> (Inl e, snd r) | None \<Rightarrow> r)"

text \<open>
  The body of the outer \<^verbatim>\<open>try\<close> of \<^verbatim>\<open>extract_document\<close>. The agent name is computed and not
  used afterwards, as in the source; the agent is looked up by its fixed name and created when
  the lookup raises.
\<close>

definition extract_body ::
  "xenv \<Rightarrow> document list \<Rightarrow> string \<Rightarrow> string \<Rightarrow> string \<Rightarrow> string option \<Rightarrow> fs
     \<Rightarrow> (exn + dict) \<times> fs" where
  "extract_body env documents document_type file_name doc agent_name files =
     (let chunks = map chunk_of documents;
          agent_name1 =
            (case agent_name of
               None \<Rightarrow> get_agent_name_for_type document_type
             | Some a \<Rightarrow> if a = [] then get_agent_name_for_type document_type else a);
          extraction_id = uuid4 env
      in case store_extraction_data env doc chunks document_type file_name files of
           (Inl e, files1) \<Rightarrow> (Inl e, files1)
         | (Inr u, files1) \<Rightarrow>
             (case (case get_agent env of Inl e \<Rightarrow> create_agent env | Inr a \<Rightarrow> Inr a) of
                Inl e \<Rightarrow> (Inl e, files1)
              | Inr benefit_agent \<Rightarrow>
                  (case temp_file env of
                     Some e \<Rightarrow> (Inl e, files1)
                   | None \<Rightarrow>
                       try_finally
                         (extract_and_store env benefit_agent (JDict [(''chunks'', JList chunks)])
                            extraction_id document_type file_name doc files1)
                         (unlink env))))"

text \<open>
  \<^verbatim>\<open>extract_document\<close>: the body under \<^verbatim>\<open>except Exception as e\<close>, whose handler returns the
  mapping with status \<^verbatim>\<open>error\<close>. The result type keeps the possibility of a raised exception,
  so that its absence is a theorem and not a convention.
\<close>

definition extract_document ::
  "xenv \<Rightarrow> document list \<Rightarrow> string \<Rightarrow> string \<Rightarrow> string \<Rightarrow> string option \<Rightarrow> fs
     \<Rightarrow> (exn + dict) \<times> fs" where
  "extract_document env documents document_type file_name doc agent_name files =
     (case extract_body env documents document_type file_name doc agent_name files of
        (Inl e, files1) \<Rightarrow> (Inr (error_mapping e document_type file_name), files1)
      | (Inr m, files1) \<Rightarrow> (Inr m, files1))"


section \<open>The background save task of \<^verbatim>\<open>SimpleIngestComponent\<close> and \<^verbatim>\<open>ParallelizedIngestComponent\<close>\<close>

text \<open>
  The state a save task works on: the phase ledger (every \<^verbatim>\<open>update_phase(doc_id, phase)\<close>, in
  order), the extraction-result files, and the field lists passed to
  \<^verbatim>\<open>extraction_service._extract_with_rag\<close>, one entry per call. The vector index, which only
  \<^verbatim>\<open>run_embedding\<close> touches, is not part of it.
\<close>

record task_state =
  ledger :: "(string \<times> string) list"
  files :: fs
  rag_calls :: "string list list"

text \<open>
  Modelled from the spec: \<^verbatim>\<open>DocumentTypeService.update_document_phase\<close> is not among the
  sources; the specification gives the phase tracker as \<^verbatim>\<open>update_phase(doc_id, phase)\<close>, a write
  of the phase for the document id. The write is recorded in the ledger. The document id is a
  \<^verbatim>\<open>str\<close> (\<^verbatim>\<open>str(uuid.uuid4())\<close>), so the test \<^verbatim>\<open>doc_id is not None\<close> of the source always passes.
\<close>

definition update_phase :: "string \<Rightarrow> string \<Rightarrow> task_state \<Rightarrow> task_state" where
  "update_phase doc phase st = st\<lparr>ledger := ledger st @ [(doc, phase)]\<rparr>"

text \<open>
  What the collaborators do during one save task: the poll for the phase entry, the parser,
  the extraction call, the order in which the two threads get to write a phase, missing-field
  detection, the company configuration, the retrieval-augmented query, and the write of the
  merged record.
\<close>

record tenv =
  wait_for_document_entry :: "exn + bool"
  transform_file_into_documents :: "exn + document list"
  extraction_env :: xenv
  schedule :: "bool list"
  has_missing_fields :: "json \<Rightarrow> exn + string list"
  load_company_config :: "exn option"
  extract_with_rag :: "string list \<Rightarrow> exn + json"
  result_rewrite :: write_outcome

datatype variant = Simple | Parallelized

text \<open>\<^verbatim>\<open>parse_documents\<close>: parse the stored file, then stamp every document with the id and file name.\<close>

definition parse_documents :: "tenv \<Rightarrow> string \<Rightarrow> string \<Rightarrow> exn + document list" where
  "parse_documents env file_name doc =
     (case transform_file_into_documents env of
        Inl e \<Rightarrow> Inl e
      | Inr documents \<Rightarrow>
          Inr (map (\<lambda>d. d\<lparr>doc_id := doc,
                          metadata := AList.update ''doc_id'' (JStr doc)
                                        (AList.update ''file_name'' (JStr file_name)
                                           (metadata d))\<rparr>)
                 documents))"

text \<open>
  The phase writes of the two threads between \<^verbatim>\<open>start()\<close> and \<^verbatim>\<open>join()\<close>. In
  \<^verbatim>\<open>SimpleIngestComponent\<close>, \<^verbatim>\<open>run_extraction\<close> writes \<^verbatim>\<open>extraction\<close> and, after the extraction
  call, \<^verbatim>\<open>embedding\<close>, and \<^verbatim>\<open>run_embedding\<close> writes nothing. In \<^verbatim>\<open>ParallelizedIngestComponent\<close>
  each thread writes its own phase first. The schedule says which thread writes next.
\<close>

fun interleave :: "bool list \<Rightarrow> 'a list \<Rightarrow> 'a list \<Rightarrow> 'a list" where
  "interleave sched [] ys = ys"
| "interleave sched xs [] = xs"
| "interleave [] xs ys = xs @ ys"
| "interleave (True # sched) (x # xs) ys = x # interleave sched xs ys"
| "interleave (False # sched) xs (y # ys) = y # interleave sched xs ys"

fun extraction_thread_phases :: "variant \<Rightarrow> string list" where
  "extraction_thread_phases Simple = [''extraction'', ''embedding'']"
| "extraction_thread_phases Parallelized = [''extraction'']"

fun embedding_thread_phases :: "variant \<Rightarrow> string list" where
  "embedding_thread_phases Simple = []"
| "embedding_thread_phases Parallelized = [''embedding'']"

text \<open>
  \<^verbatim>\<open>run_extraction\<close> apart from its phase writes: call \<^verbatim>\<open>extract_document\<close> with document type
  \<^verbatim>\<open>"Benefit"\<close>; when the returned mapping has status \<^verbatim>\<open>completed\<close>, store the result, the
  extraction id and the document type in the metadata of every document. An exception that
  escapes a thread ends that thread only.
\<close>

definition run_extraction ::
  "tenv \<Rightarrow> string \<Rightarrow> string \<Rightarrow> document list \<Rightarrow> fs \<Rightarrow> document list \<times> fs" where
  "run_extraction env file_name doc documents fls =
     (case extract_document (extraction_env env) documents ''Benefit'' file_name doc None fls of
        (Inl e, fls1) \<Rightarrow> (documents, fls1)
      | (Inr extraction, fls1) \<Rightarrow>
          (if extraction \<noteq> [] \<and> dict_get extraction ''status'' = JStr ''completed'' then
             (map (\<lambda>d. d\<lparr>metadata :=
                           AList.update ''document_type'' (dict_get extraction ''document_type'')
                             (AList.update ''extraction_id'' (dict_get extraction ''extraction_id'')
                                (AList.update ''extraction''
                                   (case map_of extraction ''result'' of
                                      None \<Rightarrow> JDict [] | Some r \<Rightarrow> r)
                                   (metadata d)))\<rparr>)
                documents,
              fls1)
           else (documents, fls1)))"

text \<open>The two threads, from \<^verbatim>\<open>start()\<close> to \<^verbatim>\<open>join()\<close>.\<close>

definition fork_join ::
  "variant \<Rightarrow> tenv \<Rightarrow> string \<Rightarrow> string \<Rightarrow> document list \<Rightarrow> task_state
     \<Rightarrow> document list \<times> task_state" where
  "fork_join var env file_name doc documents st =
     (let (documents1, fls1) = run_extraction env file_name doc documents (files st);
          phases = interleave (schedule env) (extraction_thread_phases var)
                     (embedding_thread_phases var)
      in (documents1, st\<lparr>ledger := ledger st @ map (Pair doc) phases, files := fls1\<rparr>))"

text \<open>One call of \<^verbatim>\<open>_extract_with_rag\<close>, recorded.\<close>

definition call_rag :: "tenv \<Rightarrow> string list \<Rightarrow> task_state \<Rightarrow> (exn + json) \<times> task_state" where
  "call_rag env missing_fields st =
     (extract_with_rag env missing_fields, st\<lparr>rag_calls := rag_calls st @ [missing_fields]\<rparr>)"

text \<open>
  The loop \<^verbatim>\<open>for batch in batch_fields(missing_fields, batch_size)\<close> of
  \<^verbatim>\<open>SimpleIngestComponent\<close>, which merges every answer into \<^verbatim>\<open>all_rag_results\<close> with
  \<^verbatim>\<open>deep_update\<close>. The task state holds contents, not objects. The records merged by a save
  task are the dictionary \<^verbatim>\<open>all_rag_results = {}\<close> it creates, the answers of the query service,
  taken here as given by their content (each answer a record of its own, nested within the
  recursion limit), and the record read with \<^verbatim>\<open>json.load\<close>: the base and the overlay of every
  call are trees that share no object, and on these \<^verbatim>\<open>deep_update\<close> leaves in the base the
  content \<open>deep_merge\<close> computes (lemma \<open>deep_update_merges\<close>).
\<close>

fun rag_loop ::
  "tenv \<Rightarrow> string list list \<Rightarrow> dict \<Rightarrow> task_state \<Rightarrow> (exn + dict) \<times> task_state" where
  "rag_loop env [] all_rag_results st = (Inr all_rag_results, st)"
| "rag_loop env (batch # rest) all_rag_results st =
     (case call_rag env batch st of
        (Inl e, st1) \<Rightarrow> (Inl e, st1)
      | (Inr rag_results, st1) \<Rightarrow>
          rag_loop env rest (deep_merge all_rag_results rag_results) st1)"

text \<open>
  Writing the merged record back: \<^verbatim>\<open>extraction_data["result"] = final_data\<close>, then
  \<^verbatim>\<open>json.dump\<close> to \<^verbatim>\<open>result.json\<close>. It happens only when the extraction result is a dictionary.
\<close>

definition write_back ::
  "tenv \<Rightarrow> string \<Rightarrow> dict \<Rightarrow> json \<Rightarrow> dict \<Rightarrow> task_state \<Rightarrow> (exn + unit) \<times> task_state" where
  "write_back env doc extraction_data extraction_result rag_results st =
     (case extraction_result of
        JDict er \<Rightarrow>
          (let final_data = deep_merge er (JDict rag_results);
               (r, fls1) = write_json (result_rewrite env) (doc, ''result.json'')
                             (JDict (AList.update ''result'' (JDict final_data) extraction_data))
                             (files st)
           in (r, st\<lparr>files := fls1\<rparr>))
      | _ \<Rightarrow> (Inr (), st))"

text \<open>
  The branch \<^verbatim>\<open>if missing_fields:\<close> of \<^verbatim>\<open>SimpleIngestComponent\<close>: the fields are queried in
  batches of \<open>10\<close>.
\<close>

definition simple_fill_missing ::
  "tenv \<Rightarrow> string \<Rightarrow> dict \<Rightarrow> json \<Rightarrow> string list \<Rightarrow> task_state
     \<Rightarrow> (exn + unit) \<times> task_state" where
  "simple_fill_missing env doc extraction_data extraction_result missing_fields st =
     (if missing_fields \<noteq> [] then
        (case load_company_config env of
           Some e \<Rightarrow> (Inl e, st)
         | None \<Rightarrow>
             (case rag_loop env (batch_fields missing_fields 10) [] st of
                (Inl e, st1) \<Rightarrow> (Inl e, st1)
              | (Inr all_rag_results, st1) \<Rightarrow>
                  write_back env doc extraction_data extraction_result all_rag_results st1))
      else (Inr (), st))"

text \<open>
  The same branch of \<^verbatim>\<open>ParallelizedIngestComponent\<close>: one call with all the missing fields.
  The log line that follows reads \<^verbatim>\<open>rag_results.keys()\<close>, which raises unless the answer is a
  dictionary.
\<close>

definition parallel_fill_missing ::
  "tenv \<Rightarrow> string \<Rightarrow> dict \<Rightarrow> json \<Rightarrow> string list \<Rightarrow> task_state
     \<Rightarrow> (exn + unit) \<times> task_state" where
  "parallel_fill_missing env doc extraction_data extraction_result missing_fields st =
     (if missing_fields \<noteq> [] then
        (case load_company_config env of
           Some e \<Rightarrow> (Inl e, st)
         | None \<Rightarrow>
             (case call_rag env missing_fields st of
                (Inl e, st1) \<Rightarrow> (Inl e, st1)
              | (Inr (JDict rag_results), st1) \<Rightarrow>
                  write_back env doc extraction_data extraction_result rag_results st1
              | (Inr other, st1) \<Rightarrow> (Inl (AttributeError ''keys''), st1)))
      else (Inr (), st))"

fun fill_missing ::
  "variant \<Rightarrow> tenv \<Rightarrow> string \<Rightarrow> dict \<Rightarrow> json \<Rightarrow> string list \<Rightarrow> task_state
     \<Rightarrow> (exn + unit) \<times> task_state" where
  "fill_missing Simple = simple_fill_missing"
| "fill_missing Parallelized = parallel_fill_missing"

text \<open>
  The \<^verbatim>\<open>try\<close> block under \<^verbatim>\<open>with self._rag_thread_lock\<close>. A \<^verbatim>\<open>return\<close> leaves the task without
  a phase write of its own; reaching the end of the block writes \<^verbatim>\<open>completed\<close>. The test
  \<^verbatim>\<open>if not doc_id: return\<close> exists in \<^verbatim>\<open>SimpleIngestComponent\<close> only.
\<close>

definition rag_block ::
  "variant \<Rightarrow> tenv \<Rightarrow> string \<Rightarrow> document list \<Rightarrow> task_state \<Rightarrow> (exn + unit) \<times> task_state" where
  "rag_block var env doc documents st =
     (case documents of
        [] \<Rightarrow> (Inl (IndexError ''list index out of range''), st)
      | d0 # ds \<Rightarrow>
          if \<not> truthy (dict_get (metadata d0) ''file_name'') then (Inr (), st)
          else if var = Simple \<and> doc = [] then (Inr (), st)
          else if \<not> truthy (dict_get (metadata d0) ''document_type'') then (Inr (), st)
          else
            (case files st (doc, ''result.json'') of
               None \<Rightarrow> (Inr (), st)
             | Some Truncated \<Rightarrow> (Inl (ValueError ''JSONDecodeError''), st)
             | Some (Complete (JDict extraction_data)) \<Rightarrow>
                 (let extraction_result =
                        (case map_of extraction_data ''result'' of
                           None \<Rightarrow> JDict [] | Some r \<Rightarrow> r)
                  in if \<not> truthy extraction_result then (Inr (), st)
                     else
                       (case has_missing_fields env extraction_result of
                          Inl e \<Rightarrow> (Inl e, st)
                        | Inr missing_fields \<Rightarrow>
                            (case fill_missing var env doc extraction_data extraction_result
                                    missing_fields st of
                               (Inl e, st1) \<Rightarrow> (Inl e, st1)
                             | (Inr u, st1) \<Rightarrow> (Inr (), update_phase doc ''completed'' st1))))
             | Some (Complete other) \<Rightarrow> (Inl (AttributeError ''get''), st)))"

text \<open>
  The outer \<^verbatim>\<open>try\<close> block of \<^verbatim>\<open>save_task\<close>. The handler of the inner \<^verbatim>\<open>try\<close> writes
  \<^verbatim>\<open>completed\<close> and the exception goes no further.
\<close>

definition save_task_body ::
  "variant \<Rightarrow> tenv \<Rightarrow> string \<Rightarrow> string \<Rightarrow> task_state \<Rightarrow> (exn + unit) \<times> task_state" where
  "save_task_body var env file_name doc st =
     (case wait_for_document_entry env of
        Inl e \<Rightarrow> (Inl e, st)
      | Inr found \<Rightarrow>
          (let st1 = update_phase doc ''parsing'' st
           in case parse_documents env file_name doc of
                Inl e \<Rightarrow> (Inl e, st1)
              | Inr documents \<Rightarrow>
                  (let (documents1, st2) = fork_join var env file_name doc documents st1;
                       st3 = update_phase doc ''rag'' st2
                   in case rag_block var env doc documents1 st3 of
                        (Inl e, st4) \<Rightarrow> (Inr (), update_phase doc ''completed'' st4)
                      | (Inr u, st4) \<Rightarrow> (Inr (), st4))))"

text \<open>
  \<^verbatim>\<open>save_task\<close>: the body, the handler \<^verbatim>\<open>except Exception\<close> that writes \<^verbatim>\<open>error\<close>, and the
  \<^verbatim>\<open>finally\<close> block that writes \<^verbatim>\<open>completed\<close>.
\<close>

definition save_task :: "variant \<Rightarrow> tenv \<Rightarrow> string \<Rightarrow> string \<Rightarrow> task_state \<Rightarrow> task_state" where
  "save_task var env file_name doc st =
     (let (r, st1) = save_task_body var env file_name doc st;
          st2 = (case r of Inl e \<Rightarrow> update_phase doc ''error'' st1 | Inr u \<Rightarrow> st1)
      in update_phase doc ''completed'' st2)"

text \<open>The phases written for a document id, oldest first.\<close>

definition phases_of :: "string \<Rightarrow> task_state \<Rightarrow> string list" where
  "phases_of doc st = map snd (filter (\<lambda>w. fst w = doc) (ledger st))"

section \<open>\<^verbatim>\<open>ingest\<close>\<close>

text \<open>
  What a call of \<^verbatim>\<open>ingest\<close> can change: the original files stored by
  \<^verbatim>\<open>IngestionHelper.store_original_file\<close>, the number of identifiers drawn from
  \<^verbatim>\<open>uuid.uuid4()\<close>, the threads started on \<^verbatim>\<open>save_task\<close> (with the file name, stored path and
  document id they were given), the state those tasks work on, and the document lists saved
  into the index by the synchronous \<^verbatim>\<open>_save_docs\<close>.
\<close>

record ingest_state =
  originals :: "(string \<times> string) list"
  uuid_count :: nat
  threads :: "(string \<times> string \<times> string) list"
  task :: task_state
  saved_docs :: "document list list"

record ienv =
  store_original_file :: "string \<Rightarrow> string \<Rightarrow> exn + string"
  uuid_supply :: "nat \<Rightarrow> string"
  pool_transform :: "string \<Rightarrow> string \<Rightarrow> exn + document list"
  save_docs_raises :: "exn option"

text \<open>\<^verbatim>\<open>_background_save_docs\<close>: define \<^verbatim>\<open>save_task\<close> and start a thread on it.\<close>

definition background_save_docs ::
  "string \<Rightarrow> string \<Rightarrow> string \<Rightarrow> ingest_state \<Rightarrow> ingest_state" where
  "background_save_docs file_name stored_file_path doc s =
     s\<lparr>threads := threads s @ [(file_name, stored_file_path, doc)]\<rparr>"

definition stub_document :: "string \<Rightarrow> string \<Rightarrow> document" where
  "stub_document file_name doc =
     \<lparr>doc_id = doc, doc_text = [],
      metadata = [(''file_name'', JStr file_name), (''doc_id'', JStr doc)]\<rparr>"

text \<open>\<^verbatim>\<open>SimpleIngestComponent.ingest\<close>\<close>

definition simple_ingest ::
  "ienv \<Rightarrow> string \<Rightarrow> string \<Rightarrow> ingest_state \<Rightarrow> (exn + document list) \<times> ingest_state" where
  "simple_ingest env file_name file_data s =
     (case store_original_file env file_name file_data of
        Inl e \<Rightarrow> (Inl e, s)
      | Inr stored_file_path \<Rightarrow>
          (let s1 = s\<lparr>originals := originals s @ [(file_name, stored_file_path)]\<rparr>;
               doc = uuid_supply env (uuid_count s1);
               s2 = s1\<lparr>uuid_count := Suc (uuid_count s1)\<rparr>
           in (Inr [stub_document file_name doc],
               background_save_docs file_name stored_file_path doc s2)))"

text \<open>
  \<^verbatim>\<open>ParallelizedIngestComponent._save_docs\<close>, reduced to what it is given and whether it raises.
\<close>

definition parallel_save_docs ::
  "ienv \<Rightarrow> document list \<Rightarrow> ingest_state \<Rightarrow> (exn + document list) \<times> ingest_state" where
  "parallel_save_docs env documents s =
     (case save_docs_raises env of
        Some e \<Rightarrow> (Inl e, s)
      | None \<Rightarrow> (Inr documents, s\<lparr>saved_docs := saved_docs s @ [documents]\<rparr>))"

text \<open>
  \<^verbatim>\<open>ParallelizedIngestComponent.ingest\<close>; \<open>extraction_component\<close> tells whether the component was
  built with an extraction component (\<^verbatim>\<open>if self.extraction_component:\<close>).
\<close>

definition parallel_ingest ::
  "ienv \<Rightarrow> bool \<Rightarrow> string \<Rightarrow> string \<Rightarrow> ingest_state
     \<Rightarrow> (exn + document list) \<times> ingest_state" where
  "parallel_ingest env extraction_component file_name file_data s =
     (case store_original_file env file_name file_data of
        Inl e \<Rightarrow> (Inl e, s)
      | Inr stored_file_path \<Rightarrow>
          (let s1 = s\<lparr>originals := originals s @ [(file_name, stored_file_path)]\<rparr>;
               doc = uuid_supply env (uuid_count s1);
               s2 = s1\<lparr>uuid_count := Suc (uuid_count s1)\<rparr>
           in if extraction_component then
                (Inr [stub_document file_name doc],
                 background_save_docs file_name stored_file_path doc s2)
              else
                (case pool_transform env file_name stored_file_path of
                   Inl e \<Rightarrow> (Inl e, s2)
                 | Inr documents \<Rightarrow> parallel_save_docs env documents s2)))"

section \<open>Properties of \<^verbatim>\<open>deep_update\<close>\<close>

subsection \<open>Trees in the store\<close>

text \<open>
  A tree is read the same way in any store that agrees on its objects; its dictionaries list
  each key once; and an object holds at most one content.
\<close>

lemma tree_frame:
  "tree_at h v t = Some F \<Longrightarrow> (\<forall>a\<in>F. h' a = h a) \<Longrightarrow> tree_at h' v t = Some F"
  "tree_items h items ts = Some F \<Longrightarrow> (\<forall>a\<in>F. h' a = h a) \<Longrightarrow> tree_items h' items ts = Some F"
  "tree_list h vs js = Some F \<Longrightarrow> (\<forall>a\<in>F. h' a = h a) \<Longrightarrow> tree_list h' vs js = Some F"
proof (induction h v t and h items ts and h vs js arbitrary: F and F and F
         rule: tree_at_tree_items_tree_list.induct)
  case (6 h a kvs)
  from "6.prems"(1) obtain F0 where
    f0: "tree_items h (h a) kvs = Some F0" "a \<notin> F0" "F = insert a F0"
    by (auto split: option.splits if_splits)
  from "6.prems"(2) f0 have same: "h' a = h a" and "\<forall>x\<in>F0. h' x = h x" by auto
  with "6.IH" [OF f0(1)] have "tree_items h' (h a) kvs = Some F0" by blast
  with f0 same show ?case by simp
next
  case (9 h k v r k' t r')
  from "9.prems"(1) obtain F1 F2 where
    f: "k = k'" "k \<notin> fst ` set r" "tree_at h v t = Some F1" "tree_items h r r' = Some F2"
       "F1 \<inter> F2 = {}" "F = F1 \<union> F2"
    by (auto split: option.splits if_splits)
  from "9.prems"(2) f have a1: "\<forall>x\<in>F1. h' x = h x" and a2: "\<forall>x\<in>F2. h' x = h x" by auto
  have "tree_at h' v t = Some F1"
    using "9.IH"(1) f a1 by blast
  moreover have "tree_items h' r r' = Some F2"
    using "9.IH"(2) f a2 by blast
  ultimately show ?case using f by simp
next
  case (12 h v vs t ts)
  from "12.prems"(1) obtain F1 F2 where
    f: "tree_at h v t = Some F1" "tree_list h vs ts = Some F2"
       "F1 \<inter> F2 = {}" "F = F1 \<union> F2"
    by (auto split: option.splits if_splits)
  from "12.prems"(2) f have a1: "\<forall>x\<in>F1. h' x = h x" and a2: "\<forall>x\<in>F2. h' x = h x" by auto
  have "tree_at h' v t = Some F1"
    using "12.IH"(1) f a1 by blast
  moreover have "tree_list h' vs ts = Some F2"
    using "12.IH"(2) f a2 by blast
  ultimately show ?case using f by simp
qed simp_all

lemma tree_items_keys:
  "tree_items h items ts = Some F \<Longrightarrow> map fst items = map fst ts \<and> distinct (map fst items)"
proof (induction items arbitrary: ts F)
  case Nil
  then show ?case by (cases ts) simp_all
next
  case (Cons kv items)
  obtain k v where kv: "kv = (k, v)" by (cases kv)
  from Cons.prems obtain k' t r' where ts: "ts = (k', t) # r'"
    by (cases ts) (auto simp: kv)
  from Cons.prems obtain F2 where
    f: "k = k'" "k \<notin> fst ` set items" "tree_items h items r' = Some F2"
    by (auto simp: kv ts split: option.splits if_splits)
  from Cons.IH [OF f(3)] have ih: "map fst items = map fst r'" "distinct (map fst items)"
    by blast+
  from ih(1) have "fst ` set r' = fst ` set items" by (metis set_map)
  moreover from ih have "distinct (map fst r')" by metis
  ultimately show ?case using ih f by (simp add: kv ts)
qed

text \<open>Looking a key up: the child, its tree, and the rest of the object.\<close>

lemma tree_items_delete:
  "tree_items h items ts = Some F \<Longrightarrow>
   \<exists>Fo. tree_items h (AList.delete k items) (AList.delete k ts) = Some Fo \<and> Fo \<subseteq> F
        \<and> (case map_of items k of
              None \<Rightarrow> map_of ts k = None \<and> Fo = F
            | Some v \<Rightarrow> \<exists>t Fv. map_of ts k = Some t \<and> tree_at h v t = Some Fv
                           \<and> F = Fv \<union> Fo \<and> Fv \<inter> Fo = {})"
proof (induction items arbitrary: ts F)
  case Nil
  then show ?case by (cases ts) simp_all
next
  case (Cons kv items)
  obtain k0 v where kv: "kv = (k0, v)" by (cases kv)
  from Cons.prems obtain k' t r' where ts: "ts = (k', t) # r'"
    by (cases ts) (auto simp: kv)
  from Cons.prems obtain F1 F2 where
    f: "k0 = k'" "k0 \<notin> fst ` set items" "tree_at h v t = Some F1"
       "tree_items h items r' = Some F2" "F1 \<inter> F2 = {}" "F = F1 \<union> F2"
    by (auto simp: kv ts split: option.splits if_splits)
  from Cons.IH [OF f(4)] obtain Fo where
    ih: "tree_items h (AList.delete k items) (AList.delete k r') = Some Fo" "Fo \<subseteq> F2"
        "case map_of items k of
           None \<Rightarrow> map_of r' k = None \<and> Fo = F2
         | Some v \<Rightarrow> \<exists>t Fv. map_of r' k = Some t \<and> tree_at h v t = Some Fv
                        \<and> F2 = Fv \<union> Fo \<and> Fv \<inter> Fo = {}"
    by blast
  show ?case
  proof (cases "k = k0")
    case True
    with f(2) have none: "map_of items k = None"
      by (simp add: map_of_eq_None_iff)
    with ih(3) have "Fo = F2" by simp
    moreover from none have "AList.delete k items = items"
      by (simp add: delete_id map_of_eq_None_iff [symmetric] dom_map_of_conv_image_fst)
    ultimately show ?thesis
      using True f ih(1) none by (auto simp: kv ts)
  next
    case False
    have notin: "k0 \<notin> fst ` set (AList.delete k items)"
      using f(2) dom_delete_subset [of k items] by blast
    from False f ih notin show ?thesis
      by (cases "map_of items k") (auto simp: kv ts)
  qed
qed

lemma tree_unique:
  "tree_at h v t = Some F \<Longrightarrow> tree_at h v t' = Some F' \<Longrightarrow> t = t' \<and> F = F'"
  "tree_items h items ts = Some G \<Longrightarrow> tree_items h items ts' = Some G' \<Longrightarrow> ts = ts' \<and> G = G'"
  "tree_list h vs us = Some L \<Longrightarrow> tree_list h vs us' = Some L' \<Longrightarrow> us = us' \<and> L = L'"
proof (induction h v t and h items ts and h vs us arbitrary: t' F F' and ts' G G' and us' L L'
       rule: tree_at_tree_items_tree_list.induct)
  case (1 h)
  then show ?case by (cases t') simp_all
next
  case (2 h b c)
  then show ?case by (cases t') (simp_all split: if_splits)
next
  case (3 h n m)
  then show ?case by (cases t') (simp_all split: if_splits)
next
  case (4 h s t)
  then show ?case by (cases t') (simp_all split: if_splits)
next
  case (5 h vs ts)
  from "5.prems"(2) obtain ts2 where t': "t' = JList ts2" by (cases t') simp_all
  from "5.IH" [of F ts2 F'] "5.prems" show ?case by (simp add: t')
next
  case (6 h a kvs)
  from "6.prems"(2) obtain kvs2 where t': "t' = JDict kvs2" by (cases t') simp_all
  from "6.prems"(1) obtain F0 where a: "tree_items h (h a) kvs = Some F0" "F = insert a F0"
    by (auto split: option.splits if_splits)
  from "6.prems"(2) obtain F1 where b: "tree_items h (h a) kvs2 = Some F1" "F' = insert a F1"
    by (auto simp: t' split: option.splits if_splits)
  from "6.IH" [OF a(1) b(1)] a(2) b(2) show ?case by (simp add: t')
next
  case (8 h)
  then show ?case by (cases ts') simp_all
next
  case (9 h k v r k' t r')
  from "9.prems"(2) obtain k2 t2 r2 where ts': "ts' = (k2, t2) # r2"
    by (cases ts') auto
  from "9.prems"(1) obtain F1 F2 where
    a: "k = k'" "k \<notin> fst ` set r" "tree_at h v t = Some F1" "tree_items h r r' = Some F2"
       "G = F1 \<union> F2"
    by (auto split: option.splits if_splits)
  from "9.prems"(2) obtain F3 F4 where
    b: "k = k2" "tree_at h v t2 = Some F3" "tree_items h r r2 = Some F4" "G' = F3 \<union> F4"
    by (auto simp: ts' split: option.splits if_splits)
  have c: "k = k' \<and> k \<notin> fst ` set r" using a by simp
  from "9.IH"(1) [OF c a(3) b(2)] have e1: "t = t2" "F1 = F3" by simp_all
  from "9.IH"(2) [OF c a(3) a(4) b(3)] have e2: "r' = r2" "F2 = F4" by simp_all
  from e1 e2 a b show ?case by (simp add: ts')
next
  case (11 h)
  then show ?case by (cases us') simp_all
next
  case (12 h v vs t ts)
  from "12.prems"(2) obtain t2 r2 where us': "us' = t2 # r2"
    by (cases us') auto
  from "12.prems"(1) obtain F1 F2 where
    a: "tree_at h v t = Some F1" "tree_list h vs ts = Some F2" "L = F1 \<union> F2"
    by (auto split: option.splits if_splits)
  from "12.prems"(2) obtain F3 F4 where
    b: "tree_at h v t2 = Some F3" "tree_list h vs r2 = Some F4" "L' = F3 \<union> F4"
    by (auto simp: us' split: option.splits if_splits)
  from "12.IH"(1) [OF a(1) b(1)] have e1: "t = t2" "F1 = F3" by simp_all
  from "12.IH"(2) [OF a(1) a(2) b(2)] have e2: "ts = r2" "F2 = F4" by simp_all
  from e1 e2 a b show ?case by (simp add: us')
qed simp_all

lemma tree_items_update:
  "map fst items = map fst ts \<Longrightarrow> distinct (map fst items) \<Longrightarrow>
   tree_items h (AList.delete k items) (AList.delete k ts) = Some Fo \<Longrightarrow>
   tree_at h v t = Some Fv \<Longrightarrow> Fv \<inter> Fo = {} \<Longrightarrow>
   tree_items h (AList.update k v items) (AList.update k t ts) = Some (Fv \<union> Fo)"
proof (induction items arbitrary: ts Fo)
  case Nil
  then show ?case by simp
next
  case (Cons kv items)
  obtain k0 v0 where kv: "kv = (k0, v0)" by (cases kv)
  from Cons.prems(1) obtain t0 r' where ts: "ts = (k0, t0) # r'" and keys: "map fst items = map fst r'"
    by (cases ts) (auto simp: kv)
  from Cons.prems(2) have fresh: "k0 \<notin> fst ` set items" and dist: "distinct (map fst items)"
    by (simp_all add: kv)
  show ?case
  proof (cases "k = k0")
    case True
    from fresh keys have "k0 \<notin> fst ` set r'" by (metis set_map)
    with True fresh Cons.prems(3) have rest: "tree_items h items r' = Some Fo"
      by (simp add: kv ts)
    with True fresh Cons.prems(4,5) show ?thesis
      by (simp add: kv ts)
  next
    case False
    from False Cons.prems(3) obtain F1 Fo' where
      f: "tree_at h v0 t0 = Some F1"
         "tree_items h (AList.delete k items) (AList.delete k r') = Some Fo'"
         "F1 \<inter> Fo' = {}" "Fo = F1 \<union> Fo'"
      by (auto simp: kv ts split: option.splits if_splits)
    from Cons.prems(5) f(4) have d1: "Fv \<inter> Fo' = {}" and d2: "F1 \<inter> Fv = {}" by auto
    from Cons.IH [OF keys dist f(2) Cons.prems(4) d1]
    have ih: "tree_items h (AList.update k v items) (AList.update k t r') = Some (Fv \<union> Fo')" .
    have notin: "k0 \<notin> fst ` set (AList.update k v items)"
      using False fresh by (simp add: dom_update)
    from d2 f(3) have "F1 \<inter> (Fv \<union> Fo') = {}" by auto
    moreover have "F1 \<union> (Fv \<union> Fo') = Fv \<union> Fo" using f(4) by auto
    ultimately show ?thesis
      using False f(1) ih notin by (simp add: kv ts)
  qed
qed

text \<open>
  Replacing the child of an object: the heap may have changed inside the old child, the other
  children are as they were.
\<close>

lemma replace_child:
  assumes td: "tree_at h (VRef d) (JDict bt) = Some Fd"
    and del: "tree_items h (AList.delete k (h d)) (AList.delete k bt) = Some Fo"
    and same: "\<forall>a\<in>Fo. h1 a = h a" and same_d: "h1 d = h d"
    and new: "tree_at h1 v t = Some Fv"
    and disj: "Fv \<inter> Fo = {}" and nd: "d \<notin> Fv"
  shows "tree_at (h1(d := AList.update k v (h1 d))) (VRef d) (JDict (AList.update k t bt))
           = Some (insert d (Fv \<union> Fo))"
proof -
  let ?h2 = "h1(d := AList.update k v (h1 d))"
  from td obtain F0 where f0: "tree_items h (h d) bt = Some F0" "d \<notin> F0" "Fd = insert d F0"
    by (auto split: option.splits if_splits)
  from tree_items_keys [OF f0(1)] have keys: "map fst (h d) = map fst bt" "distinct (map fst (h d))"
    by blast+
  from tree_items_delete [OF f0(1), of k] del have sub: "Fo \<subseteq> F0" by auto
  with f0(2) have ndo: "d \<notin> Fo" by auto
  from same ndo have "\<forall>a\<in>Fo. ?h2 a = h a" by auto
  from tree_frame(2) [OF del this]
  have del2: "tree_items ?h2 (AList.delete k (h d)) (AList.delete k bt) = Some Fo" .
  from nd have "\<forall>a\<in>Fv. ?h2 a = h1 a" by auto
  from tree_frame(1) [OF new this] have new2: "tree_at ?h2 v t = Some Fv" .
  from tree_items_update [OF keys del2 new2 disj]
  have "tree_items ?h2 (AList.update k v (h d)) (AList.update k t bt) = Some (Fv \<union> Fo)" .
  with nd ndo same_d show ?thesis by simp
qed

lemma tree_ref_cases:
  "tree_at h (VRef a) t = Some F \<Longrightarrow>
   \<exists>kvs F0. t = JDict kvs \<and> tree_items h (h a) kvs = Some F0 \<and> a \<notin> F0 \<and> F = insert a F0"
  by (cases t) (auto split: option.splits if_splits)

lemma tree_items_empty: "tree_items h [] ts = Some F \<Longrightarrow> ts = [] \<and> F = {}"
  by (cases ts) simp_all

lemma tree_items_length: "tree_items h items ts = Some F \<Longrightarrow> length items = length ts"
  using tree_items_keys [of h items ts F] by (metis length_map)

text \<open>A child found under a key, with the rest of the object.\<close>

lemma tree_items_child:
  assumes "tree_items h items ts = Some F" and "map_of items k = Some v"
  obtains t Fv Fo where "map_of ts k = Some t" "tree_at h v t = Some Fv"
    "tree_items h (AList.delete k items) (AList.delete k ts) = Some Fo"
    "F = Fv \<union> Fo" "Fv \<inter> Fo = {}"
  using tree_items_delete [OF assms(1), of k] assms(2) by auto

lemma tree_items_sibling:
  assumes ti: "tree_items h items ts = Some F"
    and del: "tree_items h (AList.delete k items) (AList.delete k ts) = Some Fo"
    and ne: "k' \<noteq> k"
    and v': "map_of items k' = Some v'" and t': "map_of ts k' = Some t'"
  shows "\<exists>F'. tree_at h v' t' = Some F' \<and> F' \<subseteq> Fo"
proof -
  from ne v' have "map_of (AList.delete k items) k' = Some v'" by simp
  from tree_items_child [OF del this] obtain t Fv Foo where
    c: "map_of (AList.delete k ts) k' = Some t" "tree_at h v' t = Some Fv" "Fo = Fv \<union> Foo"
    by metis
  from ne c(1) t' have "t = t'" by simp
  with c show ?thesis by auto
qed

lemma settled_frame:
  "settled h c v t \<Longrightarrow> tree_at h (VRef c) (JDict ct) = Some Fc \<Longrightarrow> tree_at h v t = Some Fv \<Longrightarrow>
   (\<forall>a\<in>Fc \<union> Fv. h' a = h a) \<Longrightarrow> settled h' c v t"
  "settled_items h c items ts \<Longrightarrow> tree_at h (VRef c) (JDict ct) = Some Fc \<Longrightarrow>
   tree_items h items ts = Some Fv \<Longrightarrow> (\<forall>a\<in>Fc \<union> Fv. h' a = h a) \<Longrightarrow>
   settled_items h' c items ts"
proof (induction h c v t and h c items ts arbitrary: ct Fc Fv and ct Fc Fv
         rule: settled_settled_items.induct)
  case (1 h d ua ot)
  from tree_ref_cases [OF "1.prems"(3)] obtain F0 where
    f0: "tree_items h (h ua) ot = Some F0" "Fv = insert ua F0" by auto
  from "1.prems"(4) f0 have same: "h' ua = h ua" and agree: "\<forall>a\<in>Fc \<union> F0. h' a = h a" by auto
  from "1.prems"(1) have "settled_items h d (h ua) ot" by simp
  from "1.IH" [OF this "1.prems"(2) f0(1) agree] same show ?case by simp
next
  case (3 h d k v r k' t r')
  from "3.prems"(3) obtain F1 F2 where
    f: "k = k'" "tree_at h v t = Some F1" "tree_items h r r' = Some F2" "Fv = F1 \<union> F2"
    by (auto split: option.splits if_splits)
  from tree_ref_cases [OF "3.prems"(2)] obtain F0 where
    f0: "tree_items h (h d) ct = Some F0" "Fc = insert d F0" by auto
  from "3.prems"(4) f0 have same_d: "h' d = h d" by auto
  from "3.prems"(1) have rest: "settled_items h d r r'" by simp
  from "3.prems"(4) f have "\<forall>a\<in>Fc \<union> F2. h' a = h a" by auto
  from "3.IH"(2) [OF rest "3.prems"(2) f(3) this]
  have rest': "settled_items h' d r r'" .
  show ?case
  proof (cases v)
    case (VRef va)
    with "3.prems"(1) obtain c where
      c: "map_of (h d) k = Some (VRef c)" "c = va \<or> (h c \<noteq> [] \<and> settled h c v t)"
      by (auto split: option.splits val.splits)
    show ?thesis
    proof (cases "c = va")
      case True
      with c VRef same_d rest' show ?thesis by simp
    next
      case False
      with c have ne: "h c \<noteq> []" and st: "settled h c v t" by auto
      from tree_items_child [OF f0(1) c(1)] obtain tc Fcc Fo where
        ch: "tree_at h (VRef c) tc = Some Fcc" "F0 = Fcc \<union> Fo" by metis
      from tree_ref_cases [OF ch(1)] obtain cct where tc: "tc = JDict cct" and cin: "c \<in> Fcc"
        by auto
      from "3.prems"(4) f f0 ch have agree: "\<forall>a\<in>Fcc \<union> F1. h' a = h a" by auto
      from "3.IH"(1) [OF VRef c(1) refl st ch(1) [unfolded tc] f(2) agree]
      have "settled h' c v t" .
      moreover from agree cin have "h' c = h c" by auto
      ultimately show ?thesis
        using c VRef same_d rest' ne by simp
    qed
  qed (use "3.prems"(1) same_d rest' in simp_all)
qed simp_all

lemma touched_mono: "K' \<subseteq> K \<Longrightarrow> touched h d bt K' \<subseteq> touched h d bt K"
  unfolding touched_def by blast

lemma touched_subset:
  assumes td: "tree_at h (VRef d) (JDict bt) = Some Fd"
  shows "touched h d bt K \<subseteq> Fd"
proof -
  from tree_ref_cases [OF td] obtain F0 where
    f0: "tree_items h (h d) bt = Some F0" "Fd = insert d F0" by auto
  show ?thesis
  proof
    fix a assume "a \<in> touched h d bt K"
    then consider "a = d" | k v t F where "map_of (h d) k = Some v" "map_of bt k = Some t"
        "tree_at h v t = Some F" "a \<in> F"
      unfolding touched_def by blast
    then show "a \<in> Fd"
    proof cases
      case 1
      with f0 show ?thesis by simp
    next
      case 2
      from tree_items_child [OF f0(1) 2(1)] obtain t' Fv Fo where
        "map_of bt k = Some t'" "tree_at h v t' = Some Fv" "F0 = Fv \<union> Fo" by metis
      with 2 f0 show ?thesis by auto
    qed
  qed
qed

text \<open>A child under another key is not touched by work on the child under \<open>k\<close>.\<close>

lemma other_child_kept:
  assumes td: "tree_at h (VRef d) (JDict bt) = Some Fd"
    and frame: "\<forall>a. a \<notin> touched h d bt {k} \<longrightarrow> h1 a = h a"
    and ne: "k' \<noteq> k"
    and v': "map_of (h d) k' = Some v'" and t': "map_of bt k' = Some t'"
  shows "\<exists>F'. tree_at h v' t' = Some F' \<and> tree_at h1 v' t' = Some F'"
proof -
  from tree_ref_cases [OF td] obtain F0 where
    f0: "tree_items h (h d) bt = Some F0" "d \<notin> F0" "Fd = insert d F0" by auto
  from tree_items_delete [OF f0(1), of k] obtain Fo where
    del: "tree_items h (AList.delete k (h d)) (AList.delete k bt) = Some Fo" "Fo \<subseteq> F0"
      "case map_of (h d) k of
         None \<Rightarrow> map_of bt k = None \<and> Fo = F0
       | Some v \<Rightarrow> \<exists>t Fv. map_of bt k = Some t \<and> tree_at h v t = Some Fv
                      \<and> F0 = Fv \<union> Fo \<and> Fv \<inter> Fo = {}"
    by blast
  from tree_items_sibling [OF f0(1) del(1) ne v' t'] obtain F' where
    f': "tree_at h v' t' = Some F'" "F' \<subseteq> Fo" by blast
  have "F' \<inter> touched h d bt {k} = {}"
  proof -
    { fix a assume a: "a \<in> F'" "a \<in> touched h d bt {k}"
      from a(2) consider "a = d" | v t F where "map_of (h d) k = Some v" "map_of bt k = Some t"
          "tree_at h v t = Some F" "a \<in> F"
        unfolding touched_def by blast
      then have False
      proof cases
        case 1
        with a(1) f'(2) del(2) f0(2) show ?thesis by auto
      next
        case 2
        with del(3) have "F \<inter> Fo = {}" by auto
        with 2 a(1) f'(2) show ?thesis by auto
      qed }
    then show ?thesis by blast
  qed
  with frame have "\<forall>a\<in>F'. h1 a = h a" by blast
  from tree_frame(1) [OF f'(1) this] f'(1) show ?thesis by blast
qed

subsection \<open>One call merges the overlay into the base\<close>

lemma deep_merge_items_step:
  "deep_merge_items d ((k, v) # rest) =
     deep_merge_items (AList.update k (merge_value (map_of d k) v) d) rest"
  by (simp add: merge_value_def split: json.splits option.splits)

lemma deep_merge_items_nonempty: "d \<noteq> [] \<Longrightarrow> deep_merge_items d u \<noteq> []"
proof (induction u arbitrary: d)
  case Nil
  then show ?case by simp
next
  case (Cons kv u)
  obtain k' v' where kv: "kv = (k', v')" by (cases kv)
  have "AList.update k' (merge_value (map_of d k') v') d \<noteq> []"
    using Cons.prems by (cases d) auto
  then show ?case unfolding kv deep_merge_items_step by (rule Cons.IH)
qed

text \<open>Storing a value under a key of the base, by reference.\<close>

lemma store_entry:
  assumes td: "tree_at h (VRef d) (JDict bt) = Some Fd"
    and tv: "tree_at h v vt = Some Fv"
    and disj: "Fd \<inter> Fv = {}"
  shows "\<exists>Fd'. tree_at (h(d := AList.update k v (h d))) (VRef d) (JDict (AList.update k vt bt))
                 = Some Fd' \<and> Fd' \<subseteq> Fd \<union> Fv"
proof -
  from tree_ref_cases [OF td] obtain F0 where
    f0: "tree_items h (h d) bt = Some F0" "d \<notin> F0" "Fd = insert d F0" by auto
  from tree_items_delete [OF f0(1), of k] obtain Fo where
    del: "tree_items h (AList.delete k (h d)) (AList.delete k bt) = Some Fo" "Fo \<subseteq> F0"
    by blast
  from disj f0 del have d1: "Fv \<inter> Fo = {}" and d2: "d \<notin> Fv" by auto
  have "\<forall>a\<in>Fo. h a = h a" and "h d = h d" by simp_all
  from replace_child [OF td del(1) this tv d1 d2]
  have "tree_at (h(d := AList.update k v (h d))) (VRef d) (JDict (AList.update k vt bt))
          = Some (insert d (Fv \<union> Fo))" .
  moreover from f0 del have "insert d (Fv \<union> Fo) \<subseteq> Fd \<union> Fv" by auto
  ultimately show ?thesis by blast
qed

lemma update_entry_refines:
  assumes ih: "merges n"
    and td: "tree_at h (VRef d) (JDict bt) = Some Fd"
    and tv: "tree_at h v vt = Some Fv"
    and disj: "Fd \<inter> Fv = {}"
    and nest: "nesting vt \<le> n"
  shows "\<exists>h' Fd'. update_entry n h d k v = Inr h'
          \<and> tree_at h' (VRef d) (JDict (AList.update k (merge_value (map_of bt k) vt) bt))
              = Some Fd'
          \<and> Fd' \<subseteq> Fd \<union> Fv
          \<and> (\<forall>a. a \<notin> touched h d bt {k} \<longrightarrow> h' a = h a)
          \<and> (\<forall>k'. k' \<noteq> k \<longrightarrow> map_of (h' d) k' = map_of (h d) k')
          \<and> settled_items h' d [(k, v)] [(k, vt)]"
proof -
  let ?hs = "h(d := AList.update k v (h d))"
  from tree_ref_cases [OF td] obtain F0 where
    f0: "tree_items h (h d) bt = Some F0" "d \<notin> F0" "Fd = insert d F0" by auto
  have d_touched: "d \<in> touched h d bt {k}" by (simp add: touched_def)
  \<comment> \<open>the value is stored as it is\<close>
  have stored: ?thesis
    if ue: "update_entry n h d k v = Inr ?hs" and mv: "merge_value (map_of bt k) vt = vt"
  proof -
    from store_entry [OF td tv disj, of k] obtain Fd' where
      t: "tree_at ?hs (VRef d) (JDict (AList.update k vt bt)) = Some Fd'" "Fd' \<subseteq> Fd \<union> Fv"
      by blast
    have fr: "\<forall>a. a \<notin> touched h d bt {k} \<longrightarrow> ?hs a = h a"
      using d_touched by auto
    have ok: "\<forall>k'. k' \<noteq> k \<longrightarrow> map_of (?hs d) k' = map_of (h d) k'"
      by (simp add: update_conv')
    have st: "settled_items ?hs d [(k, v)] [(k, vt)]"
      by (cases v) (simp_all add: update_conv')
    from ue mv t fr ok st
    have "update_entry n h d k v = Inr ?hs
          \<and> tree_at ?hs (VRef d) (JDict (AList.update k (merge_value (map_of bt k) vt) bt))
              = Some Fd'
          \<and> Fd' \<subseteq> Fd \<union> Fv
          \<and> (\<forall>a. a \<notin> touched h d bt {k} \<longrightarrow> ?hs a = h a)
          \<and> (\<forall>k'. k' \<noteq> k \<longrightarrow> map_of (?hs d) k' = map_of (h d) k')
          \<and> settled_items ?hs d [(k, v)] [(k, vt)]"
      by simp
    then show ?thesis by blast
  qed
  show ?thesis
  proof (cases v)
    case (VRef va)
    from tv have "tree_at h (VRef va) vt = Some Fv" by (simp add: VRef)
    from tree_ref_cases [OF this] obtain ovt where vt: "vt = JDict ovt" by blast
    show ?thesis
    proof (cases "\<exists>da. map_of (h d) k = Some (VRef da) \<and> h da \<noteq> []")
      case False
      have ue: "update_entry n h d k v = Inr ?hs"
      proof (cases "map_of (h d) k")
        case None
        then show ?thesis by (simp add: VRef)
      next
        case (Some v0)
        show ?thesis
        proof (cases v0)
          case (VRef da)
          with False Some have "h da = []" by blast
          with Some VRef \<open>v = VRef va\<close> show ?thesis by simp
        qed (use Some \<open>v = VRef va\<close> in simp_all)
      qed
      have mv: "merge_value (map_of bt k) vt = vt"
      proof (cases "map_of (h d) k")
        case None
        with tree_items_delete [OF f0(1), of k] have "map_of bt k = None" by auto
        then show ?thesis by (simp add: merge_value_def vt)
      next
        case (Some v0)
        from tree_items_child [OF f0(1) Some] obtain t0 F1 where
          c: "map_of bt k = Some t0" "tree_at h v0 t0 = Some F1" by metis
        show ?thesis
        proof (cases v0)
          case (VRef da)
          with False Some have "h da = []" by auto
          with tree_ref_cases [OF c(2) [unfolded VRef]] tree_items_empty
          have "t0 = JDict []" by fastforce
          with c(1) show ?thesis by (simp add: merge_value_def vt)
        qed (use c in \<open>cases t0; simp add: merge_value_def vt\<close>)+
      qed
      from stored [OF ue mv] show ?thesis .
    next
      case True
      then obtain da where da: "map_of (h d) k = Some (VRef da)" "h da \<noteq> []" by blast
      from tree_items_child [OF f0(1) da(1)] obtain t0 Fda Fo where
        c: "map_of bt k = Some t0" "tree_at h (VRef da) t0 = Some Fda"
           "tree_items h (AList.delete k (h d)) (AList.delete k bt) = Some Fo"
           "F0 = Fda \<union> Fo" "Fda \<inter> Fo = {}"
        by metis
      from tree_ref_cases [OF c(2)] obtain dt Fda0 where
        dt: "t0 = JDict dt" "tree_items h (h da) dt = Some Fda0" "da \<in> Fda" by auto
      from dt(2) da(2) have dtne: "dt \<noteq> []"
        using tree_items_length by fastforce
      from disj f0 c have d1: "Fda \<inter> Fv = {}" by auto
      from nest have nest': "nesting (JDict ovt) \<le> n" by (simp add: vt)
      from ih [unfolded merges_def, rule_format,
               OF c(2) [unfolded dt(1)] tv [unfolded VRef vt] d1 nest']
      obtain h1 Fda1 where
        r: "deep_update n h da (VRef va) = Inr h1"
           "tree_at h1 (VRef da) (JDict (deep_merge dt (JDict ovt))) = Some Fda1"
           "Fda1 \<subseteq> Fda \<union> Fv" "\<forall>a. a \<notin> Fda \<longrightarrow> h1 a = h a"
           "settled h1 da (VRef va) (JDict ovt)"
        by blast
      let ?h2 = "h1(d := AList.update k (VRef da) (h1 d))"
      from f0 c have dnot: "d \<notin> Fda" by auto
      with r(4) have same_d: "h1 d = h d" by simp
      from da r have ue: "update_entry n h d k v = Inr ?h2"
        by (simp add: VRef)
      have mv: "merge_value (map_of bt k) vt = JDict (deep_merge dt (JDict ovt))"
        using c(1) dtne by (simp add: merge_value_def vt dt(1))
      from r(4) c(5) have same_o: "\<forall>a\<in>Fo. h1 a = h a" by auto
      from r(3) c(5) disj f0 c(4) have d2: "Fda1 \<inter> Fo = {}" by auto
      from r(3) dnot disj f0 have d3: "d \<notin> Fda1" by auto
      from replace_child [OF td c(3) same_o same_d r(2) d2 d3]
      have t2: "tree_at ?h2 (VRef d) (JDict (AList.update k (JDict (deep_merge dt (JDict ovt))) bt))
                  = Some (insert d (Fda1 \<union> Fo))" .
      have sub: "insert d (Fda1 \<union> Fo) \<subseteq> Fd \<union> Fv"
        using r(3) f0 c(4) by auto
      have fda_touched: "Fda \<subseteq> touched h d bt {k}"
        using da(1) c(1,2) unfolding touched_def by blast
      have fr: "\<forall>a. a \<notin> touched h d bt {k} \<longrightarrow> ?h2 a = h a"
        using d_touched fda_touched r(4) by auto
      have ok: "\<forall>k'. k' \<noteq> k \<longrightarrow> map_of (?h2 d) k' = map_of (h d) k'"
        by (simp add: update_conv' same_d)
      have st: "settled_items ?h2 d [(k, v)] [(k, vt)]"
      proof -
        from tree_frame(1) [OF tv, of h1] r(4) d1 have tv1: "tree_at h1 v vt = Some Fv" by blast
        have "\<forall>a\<in>Fda1 \<union> Fv. ?h2 a = h1 a"
          using d3 disj f0 by auto
        from settled_frame(1) [OF r(5) [folded VRef vt] r(2) tv1 this]
        have s2: "settled ?h2 da v vt" .
        from tree_ref_cases [OF r(2)] obtain Fm where
          "tree_items h1 (h1 da) (deep_merge dt (JDict ovt)) = Some Fm" by auto
        with deep_merge_items_nonempty [OF dtne, of ovt] have "h1 da \<noteq> []"
          using tree_items_length by fastforce
        moreover from dt(3) dnot have "da \<noteq> d" by auto
        ultimately have "?h2 da \<noteq> []" by simp
        with s2 show ?thesis by (simp add: VRef update_conv')
      qed
      from ue mv t2 sub fr ok st
      have "update_entry n h d k v = Inr ?h2
          \<and> tree_at ?h2 (VRef d) (JDict (AList.update k (merge_value (map_of bt k) vt) bt))
              = Some (insert d (Fda1 \<union> Fo))
          \<and> insert d (Fda1 \<union> Fo) \<subseteq> Fd \<union> Fv
          \<and> (\<forall>a. a \<notin> touched h d bt {k} \<longrightarrow> ?h2 a = h a)
          \<and> (\<forall>k'. k' \<noteq> k \<longrightarrow> map_of (?h2 d) k' = map_of (h d) k')
          \<and> settled_items ?h2 d [(k, v)] [(k, vt)]"
        by simp
      then show ?thesis by blast
    qed
  next
    case VNull
    with tv have "merge_value (map_of bt k) vt = vt" by (cases vt) (simp_all add: merge_value_def)
    moreover have "update_entry n h d k v = Inr ?hs" by (simp add: VNull)
    ultimately show ?thesis using stored by blast
  next
    case (VBool b)
    with tv have "merge_value (map_of bt k) vt = vt" by (cases vt) (simp_all add: merge_value_def)
    moreover have "update_entry n h d k v = Inr ?hs" by (simp add: VBool)
    ultimately show ?thesis using stored by blast
  next
    case (VNum i)
    with tv have "merge_value (map_of bt k) vt = vt" by (cases vt) (simp_all add: merge_value_def)
    moreover have "update_entry n h d k v = Inr ?hs" by (simp add: VNum)
    ultimately show ?thesis using stored by blast
  next
    case (VStr s)
    with tv have "merge_value (map_of bt k) vt = vt" by (cases vt) (simp_all add: merge_value_def)
    moreover have "update_entry n h d k v = Inr ?hs" by (simp add: VStr)
    ultimately show ?thesis using stored by blast
  next
    case (VList vs)
    with tv have "merge_value (map_of bt k) vt = vt" by (cases vt) (simp_all add: merge_value_def)
    moreover have "update_entry n h d k v = Inr ?hs" by (simp add: VList)
    ultimately show ?thesis using stored by blast
  qed
qed

lemma entry_kept:
  assumes st: "settled_items h1 d [(k, v)] [(k, vt)]"
    and td1: "tree_at h1 (VRef d) (JDict bt1) = Some Fd1"
    and tv1: "tree_at h1 v vt = Some Fv"
    and fr: "\<forall>a. a \<notin> touched h1 d bt1 K \<longrightarrow> h' a = h1 a"
    and nk: "k \<notin> K"
    and keep: "map_of (h' d) k = map_of (h1 d) k"
    and fv: "Fv \<inter> touched h1 d bt1 K = {}"
  shows "settled_items h' d [(k, v)] [(k, vt)]"
proof (cases v)
  case (VRef va)
  with st obtain c where
    c: "map_of (h1 d) k = Some (VRef c)" "c = va \<or> (h1 c \<noteq> [] \<and> settled h1 c v vt)"
    by (auto split: option.splits val.splits)
  show ?thesis
  proof (cases "c = va")
    case True
    with c keep show ?thesis by (simp add: VRef)
  next
    case False
    with c have ne: "h1 c \<noteq> []" and sc: "settled h1 c v vt" by auto
    from tree_ref_cases [OF td1] obtain F0 where
      f0: "tree_items h1 (h1 d) bt1 = Some F0" "d \<notin> F0" by auto
    from tree_items_child [OF f0(1) c(1)] obtain tc Fc Fo where
      ch: "tree_at h1 (VRef c) tc = Some Fc"
          "tree_items h1 (AList.delete k (h1 d)) (AList.delete k bt1) = Some Fo"
          "F0 = Fc \<union> Fo" "Fc \<inter> Fo = {}"
      by metis
    from tree_ref_cases [OF ch(1)] obtain cct where tc: "tc = JDict cct" and cin: "c \<in> Fc"
      by auto
    have "Fc \<inter> touched h1 d bt1 K = {}"
    proof -
      { fix a assume a: "a \<in> Fc" "a \<in> touched h1 d bt1 K"
        from a(2) consider "a = d"
          | k' v' t' F where "k' \<in> K" "map_of (h1 d) k' = Some v'" "map_of bt1 k' = Some t'"
              "tree_at h1 v' t' = Some F" "a \<in> F"
          unfolding touched_def by blast
        then have False
        proof cases
          case 1
          with a(1) f0(2) ch(3) show ?thesis by auto
        next
          case 2
          from 2(1) nk have "k' \<noteq> k" by auto
          from tree_items_sibling [OF f0(1) ch(2) this 2(2) 2(3)] 2(4)
          have "F \<subseteq> Fo" by auto
          with 2(5) a(1) ch(4) show ?thesis by auto
        qed }
      then show ?thesis by blast
    qed
    with fv fr have agree: "\<forall>a\<in>Fc \<union> Fv. h' a = h1 a" by blast
    from settled_frame(1) [OF sc ch(1) [unfolded tc] tv1 agree]
    have "settled h' c v vt" .
    moreover from agree cin ne have "h' c \<noteq> []" by auto
    ultimately show ?thesis using c(1) keep by (simp add: VRef)
  qed
qed (use st keep in simp_all)

lemma touched_step:
  assumes td: "tree_at h (VRef d) (JDict bt) = Some Fd"
    and fr: "\<forall>a. a \<notin> touched h d bt {k} \<longrightarrow> h1 a = h a"
    and keys: "\<forall>k'. k' \<noteq> k \<longrightarrow> map_of (h1 d) k' = map_of (h d) k'"
    and nk: "k \<notin> K"
  shows "touched h1 d (AList.update k x bt) K \<subseteq> touched h d bt K"
proof
  fix a assume "a \<in> touched h1 d (AList.update k x bt) K"
  then consider "a = d"
    | k' v' t' F where "k' \<in> K" "map_of (h1 d) k' = Some v'"
        "map_of (AList.update k x bt) k' = Some t'" "tree_at h1 v' t' = Some F" "a \<in> F"
    unfolding touched_def by blast
  then show "a \<in> touched h d bt K"
  proof cases
    case 1
    then show ?thesis by (simp add: touched_def)
  next
    case 2
    from 2(1) nk have ne: "k' \<noteq> k" by auto
    with 2(2) keys have v': "map_of (h d) k' = Some v'" by simp
    from ne 2(3) have t': "map_of bt k' = Some t'" by (simp add: update_conv')
    from other_child_kept [OF td fr ne v' t'] 2(4)
    have "tree_at h v' t' = Some F" by auto
    with 2(1,5) v' t' show ?thesis unfolding touched_def by blast
  qed
qed

lemma update_items_refines:
  assumes ih: "merges n"
  shows "tree_at h (VRef d) (JDict bt) = Some Fd \<Longrightarrow>
         tree_at h (VRef ua) (JDict ot) = Some Fu \<Longrightarrow>
         i \<le> length ot \<Longrightarrow>
         tree_items h (drop i (h ua)) (drop i ot) = Some Fr \<Longrightarrow>
         Fr \<subseteq> Fu \<Longrightarrow> Fd \<inter> Fr = {} \<Longrightarrow>
         touched h d bt (fst ` set (drop i ot)) \<inter> Fu = {} \<Longrightarrow>
         nesting_items (drop i ot) \<le> n \<Longrightarrow>
         \<exists>h' Fd'. update_items n h d ua (length ot) i = Inr h'
           \<and> tree_at h' (VRef d) (JDict (deep_merge_items bt (drop i ot))) = Some Fd'
           \<and> Fd' \<subseteq> Fd \<union> Fr
           \<and> (\<forall>a. a \<notin> touched h d bt (fst ` set (drop i ot)) \<longrightarrow> h' a = h a)
           \<and> (\<forall>k'. k' \<notin> fst ` set (drop i ot) \<longrightarrow> map_of (h' d) k' = map_of (h d) k')
           \<and> settled_items h' d (drop i (h ua)) (drop i ot)"
proof (induction "length ot - i" arbitrary: i h bt Fd Fr)
  case 0
  from tree_ref_cases [OF "0.prems"(2)] obtain F0 where
    f0: "tree_items h (h ua) ot = Some F0" by auto
  from tree_items_length [OF f0] have len: "length (h ua) = length ot" .
  from 0 have i: "i = length ot" by simp
  have "update_items n h d ua (length ot) i = Inr h"
    by (subst update_items.simps) (simp add: len i)
  with "0.prems"(1) show ?case
    by (simp add: i len)
next
  case (Suc m)
  let ?K = "fst ` set (drop i ot)"
  let ?K' = "fst ` set (drop (Suc i) ot)"
  from tree_ref_cases [OF Suc.prems(2)] obtain F0 where
    f0: "tree_items h (h ua) ot = Some F0" "Fu = insert ua F0" by auto
  from tree_items_length [OF f0(1)] have len: "length (h ua) = length ot" .
  from Suc.hyps(2) have i: "i < length ot" by simp
  obtain k v where kv: "h ua ! i = (k, v)" by (cases "h ua ! i")
  obtain k' vt where kt: "ot ! i = (k', vt)" by (cases "ot ! i")
  have di: "drop i (h ua) = (k, v) # drop (Suc i) (h ua)"
    using i len kv by (simp add: Cons_nth_drop_Suc [symmetric])
  have dt: "drop i ot = (k', vt) # drop (Suc i) ot"
    using i kt by (simp add: Cons_nth_drop_Suc [symmetric])
  from Suc.prems(4) obtain Fv Fr' where
    tr: "k = k'" "k \<notin> fst ` set (drop (Suc i) (h ua))" "tree_at h v vt = Some Fv"
        "tree_items h (drop (Suc i) (h ua)) (drop (Suc i) ot) = Some Fr'"
        "Fv \<inter> Fr' = {}" "Fr = Fv \<union> Fr'"
    unfolding di dt by (auto split: option.splits if_splits)
  from tree_items_keys [OF tr(4)] have "fst ` set (drop (Suc i) (h ua)) = ?K'"
    by (metis set_map)
  with tr(2) have nk: "k \<notin> ?K'" by simp
  have K: "?K = insert k ?K'" by (simp add: dt tr(1))
  from Suc.prems(6) tr(6) have d1: "Fd \<inter> Fv = {}" by auto
  from Suc.prems(8) have nest: "nesting vt \<le> n" and nest': "nesting_items (drop (Suc i) ot) \<le> n"
    by (simp_all add: dt)
  from update_entry_refines [OF ih Suc.prems(1) tr(3) d1 nest, of k]
  obtain h1 Fd1 where
    e: "update_entry n h d k v = Inr h1"
       "tree_at h1 (VRef d) (JDict (AList.update k (merge_value (map_of bt k) vt) bt)) = Some Fd1"
       "Fd1 \<subseteq> Fd \<union> Fv"
       "\<forall>a. a \<notin> touched h d bt {k} \<longrightarrow> h1 a = h a"
       "\<forall>k'. k' \<noteq> k \<longrightarrow> map_of (h1 d) k' = map_of (h d) k'"
       "settled_items h1 d [(k, v)] [(k, vt)]"
    by blast
  let ?bt1 = "AList.update k (merge_value (map_of bt k) vt) bt"
  have t_k: "touched h d bt {k} \<subseteq> touched h d bt ?K"
    by (rule touched_mono) (simp add: K)
  with Suc.prems(7) e(4) have keep_u: "\<forall>a\<in>Fu. h1 a = h a" by blast
  from tree_frame(1) [OF Suc.prems(2) keep_u] have tu1: "tree_at h1 (VRef ua) (JDict ot) = Some Fu" .
  from keep_u f0(2) have ua1: "h1 ua = h ua" by simp
  from Suc.prems(5) tr(6) have sub': "Fr' \<subseteq> Fu" and subv: "Fv \<subseteq> Fu" by auto
  from tree_frame(2) [OF tr(4), of h1] keep_u sub'
  have tr1: "tree_items h1 (drop (Suc i) (h1 ua)) (drop (Suc i) ot) = Some Fr'"
    by (auto simp: ua1)
  from tree_frame(1) [OF tr(3), of h1] keep_u subv
  have tv1: "tree_at h1 v vt = Some Fv" by auto
  from e(3) Suc.prems(6) tr(5,6) have d1': "Fd1 \<inter> Fr' = {}" by auto
  have t_sub: "touched h1 d ?bt1 ?K' \<subseteq> touched h d bt ?K"
  proof -
    from touched_step [OF Suc.prems(1) e(4) e(5) nk]
    have "touched h1 d ?bt1 ?K' \<subseteq> touched h d bt ?K'" .
    also have "\<dots> \<subseteq> touched h d bt ?K"
      by (rule touched_mono) (auto simp: K)
    finally show ?thesis .
  qed
  with Suc.prems(7) have h1': "touched h1 d ?bt1 ?K' \<inter> Fu = {}" by blast
  from Suc.hyps(2) i have m: "m = length ot - Suc i" by simp
  from i have i': "Suc i \<le> length ot" by simp
  from Suc.hyps(1) [OF m e(2) tu1 i' tr1 sub' d1' h1' nest']
  obtain h' Fd' where
    r: "update_items n h1 d ua (length ot) (Suc i) = Inr h'"
       "tree_at h' (VRef d) (JDict (deep_merge_items ?bt1 (drop (Suc i) ot))) = Some Fd'"
       "Fd' \<subseteq> Fd1 \<union> Fr'"
       "\<forall>a. a \<notin> touched h1 d ?bt1 ?K' \<longrightarrow> h' a = h1 a"
       "\<forall>k'. k' \<notin> ?K' \<longrightarrow> map_of (h' d) k' = map_of (h1 d) k'"
       "settled_items h' d (drop (Suc i) (h1 ua)) (drop (Suc i) ot)"
    by blast
  have c1: "update_items n h d ua (length ot) i = Inr h'"
    by (subst update_items.simps) (use i in \<open>simp add: len kv e(1) r(1) del: update_entry.simps\<close>)
  have c2: "tree_at h' (VRef d) (JDict (deep_merge_items bt (drop i ot))) = Some Fd'"
    using r(2) by (simp only: dt tr(1) [symmetric] deep_merge_items_step)
  have c3: "Fd' \<subseteq> Fd \<union> Fr"
    using r(3) e(3) tr(6) by auto
  have c4: "\<forall>a. a \<notin> touched h d bt ?K \<longrightarrow> h' a = h a"
    using r(4) e(4) t_sub t_k by (metis subsetD)
  have c5: "\<forall>k'. k' \<notin> ?K \<longrightarrow> map_of (h' d) k' = map_of (h d) k'"
    using r(5) e(5) by (simp add: K)
  have keep_k: "map_of (h' d) k = map_of (h1 d) k"
    using r(5) nk by simp
  from subv h1' have fv: "Fv \<inter> touched h1 d ?bt1 ?K' = {}" by blast
  from entry_kept [OF e(6) e(2) tv1 r(4) nk keep_k fv]
  have "settled_items h' d [(k, v)] [(k, vt)]" .
  with r(6) have c6: "settled_items h' d (drop i (h ua)) (drop i ot)"
    by (simp add: di dt tr(1) [symmetric] ua1)
  from c1 c2 c3 c4 c5 c6 show ?case by blast
qed

text \<open>
  The refinement: on a base and an overlay that share no object, \<^verbatim>\<open>deep_update\<close> computes
  \<open>deep_merge\<close> in place.
\<close>

lemma deep_update_merges: "merges n"
proof (induction n)
  case 0
  show ?case by (simp add: merges_def)
next
  case (Suc n)
  show ?case
    unfolding merges_def
  proof (intro allI impI)
    fix h d bt ua ot Fd Fu
    assume td: "tree_at h (VRef d) (JDict bt) = Some Fd"
      and tu: "tree_at h (VRef ua) (JDict ot) = Some Fu"
      and disj: "Fd \<inter> Fu = {}"
      and nest: "nesting (JDict ot) \<le> Suc n"
    from tree_ref_cases [OF tu] obtain F0 where
      f0: "tree_items h (h ua) ot = Some F0" "ua \<notin> F0" "Fu = insert ua F0" by auto
    from tree_items_length [OF f0(1)] have len: "length (h ua) = length ot" .
    let ?K = "fst ` set (drop 0 ot)"
    have tch: "touched h d bt ?K \<inter> Fu = {}"
      using touched_subset [OF td, of ?K] disj by blast
    from f0 disj have a1: "tree_items h (drop 0 (h ua)) (drop 0 ot) = Some F0"
      and a2: "F0 \<subseteq> Fu" and a3: "Fd \<inter> F0 = {}" by auto
    from nest have a4: "nesting_items (drop 0 ot) \<le> n" by simp
    from update_items_refines [OF Suc td tu _ a1 a2 a3 tch a4]
    obtain h' Fd' where
      r: "update_items n h d ua (length ot) 0 = Inr h'"
         "tree_at h' (VRef d) (JDict (deep_merge_items bt (drop 0 ot))) = Some Fd'"
         "Fd' \<subseteq> Fd \<union> F0"
         "\<forall>a. a \<notin> touched h d bt ?K \<longrightarrow> h' a = h a"
         "settled_items h' d (drop 0 (h ua)) (drop 0 ot)"
      by auto
    from tch f0(3) r(4) have "h' ua = h ua" by auto
    with r(5) have st: "settled h' d (VRef ua) (JDict ot)" by simp
    have fr: "\<forall>a. a \<notin> Fd \<longrightarrow> h' a = h a"
      using r(4) touched_subset [OF td, of ?K] by blast
    from r(1) have "deep_update (Suc n) h d (VRef ua) = Inr h'" by (simp add: len)
    with r(2,3) f0(3) fr st
    show "\<exists>h' Fd'. deep_update (Suc n) h d (VRef ua) = Inr h'
           \<and> tree_at h' (VRef d) (JDict (deep_merge bt (JDict ot))) = Some Fd'
           \<and> Fd' \<subseteq> Fd \<union> Fu
           \<and> (\<forall>a. a \<notin> Fd \<longrightarrow> h' a = h a)
           \<and> settled h' d (VRef ua) (JDict ot)"
      by auto
  qed
qed

subsection \<open>A second call changes nothing\<close>

lemma store_same:
  "map_of (h d) k = Some v \<Longrightarrow> h(d := AList.update k v (h d)) = h"
  by (simp add: update_triv)

lemma self_settled_items:
  "tree_items h items ts = Some F \<Longrightarrow>
   (\<And>k v. (k, v) \<in> set items \<Longrightarrow> map_of (h d) k = Some v) \<Longrightarrow>
   settled_items h d items ts"
proof (induction items arbitrary: ts F)
  case Nil
  then show ?case by (cases ts) simp_all
next
  case (Cons kv items)
  obtain k v where kv: "kv = (k, v)" by (cases kv)
  from Cons.prems(1) obtain k' t r' where ts: "ts = (k', t) # r'"
    by (cases ts) (auto simp: kv)
  from Cons.prems(1) obtain F2 where r: "tree_items h items r' = Some F2"
    by (auto simp: kv ts split: option.splits if_splits)
  have rest: "settled_items h d items r'"
    by (rule Cons.IH [OF r]) (simp add: Cons.prems(2))
  have here: "map_of (h d) k = Some v"
    by (rule Cons.prems(2)) (simp add: kv)
  show ?case
    using rest here by (cases v) (simp_all add: kv ts)
qed

lemma self_settled:
  assumes "tree_at h (VRef a) t = Some F"
  shows "settled h a (VRef a) t"
proof -
  from tree_ref_cases [OF assms] obtain kvs F0 where
    t: "t = JDict kvs" and ti: "tree_items h (h a) kvs = Some F0" by blast
  from tree_items_keys [OF ti] have dist: "distinct (map fst (h a))" by (rule conjunct2)
  have "settled_items h a (h a) kvs"
    by (rule self_settled_items [OF ti]) (simp add: dist)
  then show ?thesis by (simp add: t)
qed

lemma update_entry_noop:
  assumes ih: "repeats n"
    and tv: "tree_at h v vt = Some Fv"
    and st: "settled_items h d [(k, v)] [(k, vt)]"
    and nest: "nesting vt \<le> n"
  shows "update_entry n h d k v = Inr h"
proof (cases v)
  case (VRef va)
  from tree_ref_cases [OF tv [unfolded VRef]] obtain ts where
    vt: "vt = JDict ts" by blast
  from st obtain c where
    c: "map_of (h d) k = Some (VRef c)" "c = va \<or> (h c \<noteq> [] \<and> settled h c (VRef va) vt)"
    by (auto simp: VRef split: option.splits val.splits)
  show ?thesis
  proof (cases "h c = []")
    case True
    with c(2) have "c = va" by blast
    with c(1) have "map_of (h d) k = Some v" by (simp add: VRef)
    from store_same [of h d k v] this show ?thesis
      using c(1) True by (simp add: VRef)
  next
    case False
    have "settled h c (VRef va) vt"
    proof (cases "c = va")
      case True
      with self_settled [OF tv [unfolded VRef]] show ?thesis by simp
    next
      case False
      with c(2) show ?thesis by blast
    qed
    with ih tv nest have "deep_update n h c (VRef va) = Inr h"
      unfolding repeats_def VRef vt by blast
    with c(1) False store_same [of h d k "VRef c"] show ?thesis
      by (simp add: VRef)
  qed
next
  case VNull
  with st have "map_of (h d) k = Some v" by simp
  from store_same [of h d k v] this show ?thesis by (simp add: VNull)
next
  case (VBool b)
  with st have "map_of (h d) k = Some v" by simp
  from store_same [of h d k v] this show ?thesis by (simp add: VBool)
next
  case (VNum i)
  with st have "map_of (h d) k = Some v" by simp
  from store_same [of h d k v] this show ?thesis by (simp add: VNum)
next
  case (VStr s)
  with st have "map_of (h d) k = Some v" by simp
  from store_same [of h d k v] this show ?thesis by (simp add: VStr)
next
  case (VList l)
  with st have "map_of (h d) k = Some v" by simp
  from store_same [of h d k v] this show ?thesis by (simp add: VList)
qed

lemma update_items_noop:
  assumes ih: "repeats n" and len: "length (h ua) = length ot"
  shows "i \<le> length ot \<Longrightarrow>
         tree_items h (drop i (h ua)) (drop i ot) = Some Fr \<Longrightarrow>
         settled_items h d (drop i (h ua)) (drop i ot) \<Longrightarrow>
         nesting_items (drop i ot) \<le> n \<Longrightarrow>
         update_items n h d ua (length ot) i = Inr h"
proof (induction "length ot - i" arbitrary: i Fr)
  case 0
  then have "i = length ot" by simp
  then show ?case
    by (subst update_items.simps) (simp add: len)
next
  case (Suc m)
  from Suc.hyps(2) have i: "i < length ot" by simp
  obtain k v where kv: "h ua ! i = (k, v)" by (cases "h ua ! i")
  obtain k' vt where kt: "ot ! i = (k', vt)" by (cases "ot ! i")
  have di: "drop i (h ua) = (k, v) # drop (Suc i) (h ua)"
    using i len kv by (simp add: Cons_nth_drop_Suc [symmetric])
  have dt: "drop i ot = (k', vt) # drop (Suc i) ot"
    using i kt by (simp add: Cons_nth_drop_Suc [symmetric])
  from Suc.prems(2) obtain Fv Fr' where
    tr: "k = k'" "tree_at h v vt = Some Fv"
        "tree_items h (drop (Suc i) (h ua)) (drop (Suc i) ot) = Some Fr'"
    unfolding di dt by (auto split: option.splits if_splits)
  from Suc.prems(3) have st: "settled_items h d [(k, v)] [(k, vt)]"
    and st': "settled_items h d (drop (Suc i) (h ua)) (drop (Suc i) ot)"
    unfolding di dt tr(1) [symmetric] by simp_all
  from Suc.prems(4) have nest: "nesting vt \<le> n" and nest': "nesting_items (drop (Suc i) ot) \<le> n"
    by (simp_all add: dt)
  from update_entry_noop [OF ih tr(2) st nest]
  have e: "update_entry n h d k v = Inr h" .
  from Suc.hyps(2) i have m: "m = length ot - Suc i" by simp
  from i have i': "Suc i \<le> length ot" by simp
  from Suc.hyps(1) [OF m i' tr(3) st' nest']
  have r: "update_items n h d ua (length ot) (Suc i) = Inr h" .
  show ?case
    by (subst update_items.simps) (use i in \<open>simp add: len kv e r del: update_entry.simps\<close>)
qed

lemma deep_update_repeats: "repeats n"
proof (induction n)
  case 0
  show ?case by (simp add: repeats_def)
next
  case (Suc n)
  show ?case
    unfolding repeats_def
  proof (intro allI impI)
    fix h d ua ot Fu
    assume tu: "tree_at h (VRef ua) (JDict ot) = Some Fu"
      and st: "settled h d (VRef ua) (JDict ot)"
      and nest: "nesting (JDict ot) \<le> Suc n"
    from tree_ref_cases [OF tu] obtain F0 where
      f0: "tree_items h (h ua) ot = Some F0" by auto
    from tree_items_length [OF f0] have len: "length (h ua) = length ot" .
    from f0 have a1: "tree_items h (drop 0 (h ua)) (drop 0 ot) = Some F0" by simp
    from st have a2: "settled_items h d (drop 0 (h ua)) (drop 0 ot)" by simp
    from nest have a3: "nesting_items (drop 0 ot) \<le> n" by simp
    from update_items_noop [OF Suc len _ a1 a2 a3]
    have "update_items n h d ua (length ot) 0 = Inr h" by simp
    then show "deep_update (Suc n) h d (VRef ua) = Inr h" by (simp add: len)
  qed
qed

subsection \<open>The merge rule, key by key\<close>

lemma deep_merge_items_other:
  "k \<notin> fst ` set u \<Longrightarrow> map_of (deep_merge_items d u) k = map_of d k"
proof (induction u arbitrary: d)
  case Nil
  then show ?case by simp
next
  case (Cons kv u)
  obtain k' v' where kv: "kv = (k', v')" by (cases kv)
  from Cons.prems kv have ne: "k \<noteq> k'" and rest: "k \<notin> fst ` set u" by auto
  show ?case
    unfolding kv deep_merge_items_step
    using Cons.IH [OF rest] ne by (simp add: update_conv')
qed

lemma deep_merge_items_at:
  "distinct (map fst u) \<Longrightarrow> (k, v) \<in> set u \<Longrightarrow>
   map_of (deep_merge_items d u) k = Some (merge_value (map_of d k) v)"
proof (induction u arbitrary: d)
  case Nil
  then show ?case by simp
next
  case (Cons kv u)
  obtain k' v' where kv: "kv = (k', v')" by (cases kv)
  from Cons.prems(1) kv have fresh: "k' \<notin> fst ` set u" and dist: "distinct (map fst u)"
    by auto
  show ?case
  proof (cases "k = k'")
    case True
    with Cons.prems(2) kv fresh have "v = v'" by force
    with True fresh show ?thesis
      unfolding kv deep_merge_items_step
      by (simp add: deep_merge_items_other update_conv')
  next
    case False
    with Cons.prems(2) kv have mem: "(k, v) \<in> set u" by auto
    show ?thesis
      unfolding kv deep_merge_items_step
      using Cons.IH [OF dist mem] False by (simp add: update_conv')
  qed
qed

lemma deep_update_pos:
  "0 < n \<Longrightarrow> deep_update n h d (VRef ua) = update_items (n - 1) h d ua (length (h ua)) 0"
  by (cases n) simp_all

lemma deep_update_cyclic:
  "h a = [(kp, VNum x), (kq, VRef a)] \<Longrightarrow> kp \<noteq> kq \<Longrightarrow>
   deep_update n h a (VRef a) = Inl (RuntimeError ''maximum recursion depth exceeded'')"
proof (induction n)
  case 0
  show ?case by simp
next
  case (Suc n)
  from Suc.IH [OF Suc.prems] Suc.prems show ?case
    by (simp add: fun_upd_idem update_items.simps [of _ _ _ _ _ 0] update_items.simps [of _ _ _ _ _ "Suc 0"]
          update_items.simps [of _ _ _ _ _ "Suc (Suc 0)"])
qed

lemma deep_update_into_cycle:
  assumes "h d = [(''a'', VRef t)]" and "h u = [(''a'', VRef w)]"
    and "h t = [(''p'', VNum 1), (''q'', VRef t)]" and "h w = [(''q'', VRef t)]"
  shows "deep_update 1000 h d (VRef u) = Inl (RuntimeError ''maximum recursion depth exceeded'')"
proof -
  have cyc: "deep_update 998 h t (VRef t) = Inl (RuntimeError ''maximum recursion depth exceeded'')"
    by (rule deep_update_cyclic [of h t "''p''" 1 "''q''" 998]) (simp_all add: assms)
  have "update_items 998 h t w (length (h w)) 0
          = Inl (RuntimeError ''maximum recursion depth exceeded'')"
    by (subst update_items.simps) (simp add: assms cyc)
  with deep_update_pos [of 999 h t w]
  have inner: "deep_update 999 h t (VRef w)
                 = Inl (RuntimeError ''maximum recursion depth exceeded'')"
    by simp
  have "update_items 999 h d u (length (h u)) 0
          = Inl (RuntimeError ''maximum recursion depth exceeded'')"
    by (subst update_items.simps) (simp add: assms inner)
  with deep_update_pos [of 1000 h d u] show ?thesis by simp
qed

subsection \<open>The claims about the merge\<close>

text \<open>
  Claim C2, as amended. Let the base \<open>d\<close> and the overlay \<open>u\<close> be dictionaries of contents \<open>bt\<close>
  and \<open>ot\<close> that are trees and share no \<^verbatim>\<open>dict\<close> object, the overlay nested no deeper than the
  number of nested calls allowed. Then \<^verbatim>\<open>deep_update(d, u)\<close> returns, and for every entry
  \<open>(k, v)\<close> of the overlay the base afterwards holds at \<open>k\<close> the value given by the merge rule:
  the recursive merge of \<open>d[k]\<close> and \<open>v\<close> when \<open>v\<close> is a mapping and \<open>d\<close> held a non-empty mapping
  at \<open>k\<close>; \<open>v\<close> itself when \<open>v\<close> is a mapping and \<open>d\<close> held no mapping or an empty one at \<open>k\<close>;
  and \<open>v\<close> itself when \<open>v\<close> is not a mapping. The contents \<open>bt\<close> and \<open>ot\<close> are those at the
  time of the call.
\<close>

theorem deep_update_at_overlay_key:
  assumes "tree_at h (VRef d) (JDict bt) = Some Fd"
    and "tree_at h (VRef u) (JDict ot) = Some Fu"
    and "Fd \<inter> Fu = {}"
    and "nesting (JDict ot) \<le> depth"
    and "(k, v) \<in> set ot"
  shows "\<exists>h' rt F. deep_update depth h d (VRef u) = Inr h'
           \<and> tree_at h' (VRef d) (JDict rt) = Some F
           \<and> map_of rt k =
               Some (case v of
                       JDict vs \<Rightarrow>
                         (case map_of bt k of
                            Some (JDict ds) \<Rightarrow> if ds \<noteq> [] then JDict (deep_merge ds v) else v
                          | _ \<Rightarrow> v)
                     | _ \<Rightarrow> v)"
proof -
  from deep_update_merges [of depth] assms(1-4)
  obtain h' F where
    r: "deep_update depth h d (VRef u) = Inr h'"
       "tree_at h' (VRef d) (JDict (deep_merge bt (JDict ot))) = Some F"
    unfolding merges_def by blast
  from tree_ref_cases [OF assms(2)] obtain F0 where
    "tree_items h (h u) ot = Some F0" by auto
  from tree_items_keys [OF this] have "distinct (map fst ot)" by metis
  from deep_merge_items_at [OF this assms(5), of bt]
  have "map_of (deep_merge bt (JDict ot)) k = Some (merge_value (map_of bt k) v)" by simp
  then have "map_of (deep_merge bt (JDict ot)) k =
               Some (case v of
                       JDict vs \<Rightarrow>
                         (case map_of bt k of
                            Some (JDict ds) \<Rightarrow> if ds \<noteq> [] then JDict (deep_merge ds v) else v
                          | _ \<Rightarrow> v)
                     | _ \<Rightarrow> v)"
    by (simp add: merge_value_def)
  with r show ?thesis by blast
qed

theorem deep_update_at_overlay_key_witness:
  "tree_at ((\<lambda>a. [])(0 := [(''a'', VRef 2), (''b'', VNum 7)],
                      1 := [(''a'', VRef 3), (''b'', VRef 4), (''c'', VStr ''s'')],
                      2 := [(''x'', VNum 1)],
                      3 := [(''y'', VNum 2)],
                      4 := [(''z'', VNum 3)]))
     (VRef 0) (JDict [(''a'', JDict [(''x'', JNum 1)]), (''b'', JNum 7)]) = Some {0, 2}
   \<and> tree_at ((\<lambda>a. [])(0 := [(''a'', VRef 2), (''b'', VNum 7)],
                      1 := [(''a'', VRef 3), (''b'', VRef 4), (''c'', VStr ''s'')],
                      2 := [(''x'', VNum 1)],
                      3 := [(''y'', VNum 2)],
                      4 := [(''z'', VNum 3)]))
     (VRef 1)
     (JDict [(''a'', JDict [(''y'', JNum 2)]), (''b'', JDict [(''z'', JNum 3)]),
             (''c'', JStr ''s'')]) = Some {1, 3, 4}
   \<and> {0, 2} \<inter> {1, 3, 4} = ({} :: nat set)
   \<and> nesting (JDict [(''a'', JDict [(''y'', JNum 2)]), (''b'', JDict [(''z'', JNum 3)]),
                      (''c'', JStr ''s'')]) \<le> 2
   \<and> (''a'', JDict [(''y'', JNum 2)])
       \<in> set [(''a'', JDict [(''y'', JNum 2)]), (''b'', JDict [(''z'', JNum 3)]),
              (''c'', JStr ''s'')]
   \<and> (\<exists>h' rt F.
         deep_update 2
           ((\<lambda>a. [])(0 := [(''a'', VRef 2), (''b'', VNum 7)],
                      1 := [(''a'', VRef 3), (''b'', VRef 4), (''c'', VStr ''s'')],
                      2 := [(''x'', VNum 1)],
                      3 := [(''y'', VNum 2)],
                      4 := [(''z'', VNum 3)]))
           0 (VRef 1) = Inr h'
         \<and> tree_at h' (VRef 0) (JDict rt) = Some F
         \<and> map_of rt ''a'' = Some (JDict [(''x'', JNum 1), (''y'', JNum 2)]))"
proof -
  let ?h = "(\<lambda>a. [])(0 := [(''a'', VRef 2), (''b'', VNum 7)],
                      1 := [(''a'', VRef 3), (''b'', VRef 4), (''c'', VStr ''s'')],
                      2 := [(''x'', VNum 1)],
                      3 := [(''y'', VNum 2)],
                      4 := [(''z'', VNum (3::int))]) :: heap"
  let ?bt = "[(''a'', JDict [(''x'', JNum 1)]), (''b'', JNum 7)]"
  let ?ot = "[(''a'', JDict [(''y'', JNum 2)]), (''b'', JDict [(''z'', JNum 3)]),
              (''c'', JStr ''s'')]"
  have h1: "tree_at ?h (VRef 0) (JDict ?bt) = Some {0, 2}" by simp
  have h2: "tree_at ?h (VRef 1) (JDict ?ot) = Some {1, 3, 4}" by (simp add: insert_commute)
  have h3: "{0, 2} \<inter> {1, 3, 4} = ({} :: nat set)" by simp
  have h4: "nesting (JDict ?ot) \<le> 2" by simp
  have h5: "(''a'', JDict [(''y'', JNum 2)]) \<in> set ?ot" by simp
  from deep_update_at_overlay_key [OF h1 h2 h3 h4 h5]
  have "\<exists>h' rt F. deep_update 2 ?h 0 (VRef 1) = Inr h'
          \<and> tree_at h' (VRef 0) (JDict rt) = Some F
          \<and> map_of rt ''a'' = Some (JDict [(''x'', JNum 1), (''y'', JNum 2)])"
    by simp
  with h1 h2 h3 h4 h5 show ?thesis by (intro conjI)
qed

text \<open>
  Claim C2, as the code has it. Without the condition on sharing the rule fails. Take \<^verbatim>\<open>T = {'t': 0}\<close>, the base
  \<^verbatim>\<open>d = {'a': T}\<close> (object \<open>0\<close>, with \<^verbatim>\<open>T\<close> object \<open>2\<close>) and the overlay
  \<^verbatim>\<open>u = {'a': {'x': 1}, 'b': T}\<close> (object \<open>1\<close>), both trees. At the key \<^verbatim>\<open>'b'\<close> the overlay holds the
  mapping \<^verbatim>\<open>{'t': 0}\<close> and the base holds nothing, so the rule gives \<^verbatim>\<open>{'t': 0}\<close> there, as
  \<open>deep_merge\<close> computes. The code first merges \<^verbatim>\<open>{'x': 1}\<close> into \<^verbatim>\<open>T\<close> in place and then stores
  \<^verbatim>\<open>T\<close> under \<^verbatim>\<open>'b'\<close>: the base ends with \<^verbatim>\<open>{'t': 0, 'x': 1}\<close> at \<^verbatim>\<open>'b'\<close>.
\<close>

theorem deep_update_shared_counterexample:
  "tree_at ((\<lambda>a. [])(0 := [(''a'', VRef 2)],
                      1 := [(''a'', VRef 3), (''b'', VRef 2)],
                      2 := [(''t'', VNum 0)],
                      3 := [(''x'', VNum 1)]))
     (VRef 0) (JDict [(''a'', JDict [(''t'', JNum 0)])]) = Some {0, 2}
   \<and> tree_at ((\<lambda>a. [])(0 := [(''a'', VRef 2)],
                      1 := [(''a'', VRef 3), (''b'', VRef 2)],
                      2 := [(''t'', VNum 0)],
                      3 := [(''x'', VNum 1)]))
     (VRef 1) (JDict [(''a'', JDict [(''x'', JNum 1)]), (''b'', JDict [(''t'', JNum 0)])])
       = Some {1, 2, 3}
   \<and> map_sum id (\<lambda>h. (h 0, h 2))
       (deep_update 1000
          ((\<lambda>a. [])(0 := [(''a'', VRef 2)],
                     1 := [(''a'', VRef 3), (''b'', VRef 2)],
                     2 := [(''t'', VNum 0)],
                     3 := [(''x'', VNum 1)]))
          0 (VRef 1))
     = Inr ([(''a'', VRef 2), (''b'', VRef 2)], [(''t'', VNum 0), (''x'', VNum 1)])
   \<and> deep_merge [(''a'', JDict [(''t'', JNum 0)])]
       (JDict [(''a'', JDict [(''x'', JNum 1)]), (''b'', JDict [(''t'', JNum 0)])])
     = [(''a'', JDict [(''t'', JNum 0), (''x'', JNum 1)]), (''b'', JDict [(''t'', JNum 0)])]"
proof (intro conjI)
  show "map_sum id (\<lambda>h. (h 0, h 2))
       (deep_update 1000
          ((\<lambda>a. [])(0 := [(''a'', VRef 2)],
                     1 := [(''a'', VRef 3), (''b'', VRef 2)],
                     2 := [(''t'', VNum 0)],
                     3 := [(''x'', VNum 1)]))
          0 (VRef 1))
     = Inr ([(''a'', VRef 2), (''b'', VRef 2)], [(''t'', VNum 0), (''x'', VNum 1)])"
    by (simp add: deep_update_pos update_items.simps)
qed (simp_all add: insert_commute)

text \<open>
  Claim C4, as amended. Under the same conditions (base and overlay are trees that share no
  \<^verbatim>\<open>dict\<close> object, the overlay nested no deeper than the number of nested calls allowed) the
  merge is idempotent in the overlay: the first call returns and leaves in the base the
  content \<open>deep_merge\<close> computes, and a second call with the same overlay returns and leaves
  every object of the store as the first call left it.
\<close>

theorem deep_update_idempotent:
  assumes "tree_at h (VRef b) (JDict bt) = Some Fb"
    and "tree_at h (VRef ov) (JDict ot) = Some Fo"
    and "Fb \<inter> Fo = {}"
    and "nesting (JDict ot) \<le> depth"
  shows "\<exists>h1 F. deep_update depth h b (VRef ov) = Inr h1
           \<and> deep_update depth h1 b (VRef ov) = Inr h1
           \<and> tree_at h1 (VRef b) (JDict (deep_merge bt (JDict ot))) = Some F"
proof -
  from deep_update_merges [of depth] assms
  obtain h1 F where
    r: "deep_update depth h b (VRef ov) = Inr h1"
       "tree_at h1 (VRef b) (JDict (deep_merge bt (JDict ot))) = Some F"
       "\<forall>a. a \<notin> Fb \<longrightarrow> h1 a = h a"
       "settled h1 b (VRef ov) (JDict ot)"
    unfolding merges_def by blast
  from r(3) assms(3) have "\<forall>a\<in>Fo. h1 a = h a" by blast
  from tree_frame(1) [OF assms(2) this]
  have "tree_at h1 (VRef ov) (JDict ot) = Some Fo" .
  with deep_update_repeats [of depth] r(4) assms(4)
  have "deep_update depth h1 b (VRef ov) = Inr h1"
    unfolding repeats_def by blast
  with r(1,2) show ?thesis by blast
qed

theorem deep_update_idempotent_witness:
  "tree_at ((\<lambda>a. [])(0 := [(''a'', VRef 2), (''b'', VNum 7)],
                      1 := [(''a'', VRef 3), (''b'', VRef 4), (''c'', VStr ''s'')],
                      2 := [(''x'', VNum 1)],
                      3 := [(''y'', VNum 2)],
                      4 := []))
     (VRef 0) (JDict [(''a'', JDict [(''x'', JNum 1)]), (''b'', JNum 7)]) = Some {0, 2}
   \<and> tree_at ((\<lambda>a. [])(0 := [(''a'', VRef 2), (''b'', VNum 7)],
                      1 := [(''a'', VRef 3), (''b'', VRef 4), (''c'', VStr ''s'')],
                      2 := [(''x'', VNum 1)],
                      3 := [(''y'', VNum 2)],
                      4 := []))
     (VRef 1)
     (JDict [(''a'', JDict [(''y'', JNum 2)]), (''b'', JDict []), (''c'', JStr ''s'')])
       = Some {1, 3, 4}
   \<and> {0, 2} \<inter> {1, 3, 4} = ({} :: nat set)
   \<and> nesting (JDict [(''a'', JDict [(''y'', JNum 2)]), (''b'', JDict []), (''c'', JStr ''s'')])
       \<le> 2
   \<and> (\<exists>h1 F.
         deep_update 2
           ((\<lambda>a. [])(0 := [(''a'', VRef 2), (''b'', VNum 7)],
                      1 := [(''a'', VRef 3), (''b'', VRef 4), (''c'', VStr ''s'')],
                      2 := [(''x'', VNum 1)],
                      3 := [(''y'', VNum 2)],
                      4 := []))
           0 (VRef 1) = Inr h1
         \<and> deep_update 2 h1 0 (VRef 1) = Inr h1
         \<and> tree_at h1 (VRef 0)
             (JDict [(''a'', JDict [(''x'', JNum 1), (''y'', JNum 2)]), (''b'', JDict []),
                     (''c'', JStr ''s'')]) = Some F)"
proof -
  let ?h = "(\<lambda>a. [])(0 := [(''a'', VRef 2), (''b'', VNum 7)],
                      1 := [(''a'', VRef 3), (''b'', VRef 4), (''c'', VStr ''s'')],
                      2 := [(''x'', VNum 1)],
                      3 := [(''y'', VNum 2)],
                      4 := []) :: heap"
  let ?bt = "[(''a'', JDict [(''x'', JNum 1)]), (''b'', JNum 7)]"
  let ?ot = "[(''a'', JDict [(''y'', JNum 2)]), (''b'', JDict []), (''c'', JStr ''s'')]"
  have h1: "tree_at ?h (VRef 0) (JDict ?bt) = Some {0, 2}" by simp
  have h2: "tree_at ?h (VRef 1) (JDict ?ot) = Some {1, 3, 4}" by (simp add: insert_commute)
  have h3: "{0, 2} \<inter> {1, 3, 4} = ({} :: nat set)" by simp
  have h4: "nesting (JDict ?ot) \<le> 2" by simp
  from deep_update_idempotent [OF h1 h2 h3 h4]
  have "\<exists>h1 F. deep_update 2 ?h 0 (VRef 1) = Inr h1
          \<and> deep_update 2 h1 0 (VRef 1) = Inr h1
          \<and> tree_at h1 (VRef 0)
              (JDict [(''a'', JDict [(''x'', JNum 1), (''y'', JNum 2)]), (''b'', JDict []),
                      (''c'', JStr ''s'')]) = Some F"
    by simp
  with h1 h2 h3 h4 show ?thesis by (intro conjI)
qed

text \<open>
  Claim C4, as the code has it. Without the condition on sharing the second call need not
  even return. Take
  \<^verbatim>\<open>T = {'p': 1}\<close>, the base \<^verbatim>\<open>b = {'a': T}\<close> (object \<open>0\<close>, with \<^verbatim>\<open>T\<close> object \<open>2\<close>) and the overlay
  \<^verbatim>\<open>o = {'a': {'q': T}}\<close> (object \<open>1\<close>), both trees. The first call stores \<^verbatim>\<open>T\<close> under \<^verbatim>\<open>'q'\<close> in
  \<^verbatim>\<open>T\<close> itself. The second call then merges \<^verbatim>\<open>T\<close> into \<^verbatim>\<open>T\<close>, which calls for the same merge
  again, until the interpreter raises \<^verbatim>\<open>RecursionError\<close>; this happens whatever the number of
  nested calls allowed (lemma \<open>deep_update_cyclic\<close>), here \<open>1000\<close>.
\<close>

theorem deep_update_twice_counterexample:
  "tree_at ((\<lambda>a. [])(0 := [(''a'', VRef 2)],
                      1 := [(''a'', VRef 3)],
                      2 := [(''p'', VNum 1)],
                      3 := [(''q'', VRef 2)]))
     (VRef 0) (JDict [(''a'', JDict [(''p'', JNum 1)])]) = Some {0, 2}
   \<and> tree_at ((\<lambda>a. [])(0 := [(''a'', VRef 2)],
                      1 := [(''a'', VRef 3)],
                      2 := [(''p'', VNum 1)],
                      3 := [(''q'', VRef 2)]))
     (VRef 1) (JDict [(''a'', JDict [(''q'', JDict [(''p'', JNum 1)])])]) = Some {1, 2, 3}
   \<and> map_sum id (\<lambda>h. (h 0, h 2))
       (deep_update 1000
          ((\<lambda>a. [])(0 := [(''a'', VRef 2)],
                     1 := [(''a'', VRef 3)],
                     2 := [(''p'', VNum 1)],
                     3 := [(''q'', VRef 2)]))
          0 (VRef 1))
     = Inr ([(''a'', VRef 2)], [(''p'', VNum 1), (''q'', VRef 2)])
   \<and> (case deep_update 1000
             ((\<lambda>a. [])(0 := [(''a'', VRef 2)],
                        1 := [(''a'', VRef 3)],
                        2 := [(''p'', VNum 1)],
                        3 := [(''q'', VRef 2)]))
             0 (VRef 1) of
         Inl e \<Rightarrow> Inl e
       | Inr h1 \<Rightarrow> deep_update 1000 h1 0 (VRef 1))
     = Inl (RuntimeError ''maximum recursion depth exceeded'')"
proof -
  let ?h = "(\<lambda>a. [])(0 := [(''a'', VRef 2)],
                      1 := [(''a'', VRef 3)],
                      2 := [(''p'', VNum 1)],
                      3 := [(''q'', VRef 2)]) :: heap"
  let ?h1 = "?h(2 := [(''p'', VNum 1), (''q'', VRef 2)])"
  have first: "deep_update 1000 ?h 0 (VRef 1) = Inr ?h1"
    by (simp add: deep_update_pos update_items.simps fun_eq_iff)
  have second: "deep_update 1000 ?h1 0 (VRef 1)
                  = Inl (RuntimeError ''maximum recursion depth exceeded'')"
    by (rule deep_update_into_cycle [of _ _ 2 _ 3]) simp_all
  have t1: "tree_at ?h (VRef 0) (JDict [(''a'', JDict [(''p'', JNum 1)])]) = Some {0, 2}"
    by simp
  have t2: "tree_at ?h (VRef 1) (JDict [(''a'', JDict [(''q'', JDict [(''p'', JNum 1)])])])
              = Some {1, 2, 3}"
    by (simp add: insert_commute)
  have r1: "map_sum id (\<lambda>h. (h 0, h 2)) (deep_update 1000 ?h 0 (VRef 1))
              = Inr ([(''a'', VRef 2)], [(''p'', VNum 1), (''q'', VRef 2)])"
    by (simp only: first) simp
  have r2: "(case deep_update 1000 ?h 0 (VRef 1) of
               Inl e \<Rightarrow> Inl e
             | Inr h1 \<Rightarrow> deep_update 1000 h1 0 (VRef 1))
            = Inl (RuntimeError ''maximum recursion depth exceeded'')"
    by (simp only: first sum.case second)
  from t1 t2 r1 r2 show ?thesis by (intro conjI)
qed

section \<open>Properties of the writer stage\<close>

lemma save_docs_clears:
  "node_stack (save_docs faults w) = [] \<and> doc_stack (save_docs faults w) = []
   \<and> file_stack (save_docs faults w) = []"
  by (simp add: save_docs_def Let_def case_prod_beta split: sum.splits)


lemma inserted_append: "inserted (xs @ ys) = inserted xs @ inserted ys"
  by (induction xs rule: inserted.induct) simp_all

lemma inserted_hashes: "inserted (map (\<lambda>d. SetDocumentHash (f d)) ds) = []"
  by (induction ds) simp_all

lemma inserted_flush_body: "\<exists>n. inserted (snd (flush_body fault ds ns)) = take n ns"
proof (cases fault)
  case (InsertRaises n)
  then have "inserted (snd (flush_body fault ds ns)) = take n ns"
    by (simp add: flush_body_def)
  then show ?thesis ..
next
  case NoFault
  then have "inserted (snd (flush_body fault ds ns)) = take (length ns) ns"
    by (simp add: flush_body_def inserted_append inserted_hashes)
  then show ?thesis ..
next
  case (HashRaises i)
  then have "inserted (snd (flush_body fault ds ns)) = take (length ns) ns"
    by (simp add: flush_body_def inserted_hashes)
  then show ?thesis ..
next
  case PersistRaises
  then have "inserted (snd (flush_body fault ds ns)) = take (length ns) ns"
    by (simp add: flush_body_def inserted_hashes)
  then show ?thesis ..
qed

lemma count_list_take: "count_list (take n xs) x \<le> count_list xs x"
proof (induction xs arbitrary: n)
  case Nil
  then show ?case by simp
next
  case (Cons a xs)
  show ?case
  proof (cases n)
    case 0
    then show ?thesis by simp
  next
    case (Suc m)
    with Cons.IH [of m] show ?thesis by simp
  qed
qed

lemma save_docs_inserted:
  "\<exists>n. inserted (index_log (save_docs faults w))
        = inserted (index_log w) @ take n (node_stack w)"
proof -
  obtain n where
    "inserted (snd (flush_body (faults (flushes w)) (doc_stack w) (node_stack w)))
       = take n (node_stack w)"
    using inserted_flush_body by blast
  then have "inserted (index_log (save_docs faults w))
               = inserted (index_log w) @ take n (node_stack w)"
    by (simp add: save_docs_def Let_def case_prod_beta inserted_append split: sum.splits)
  then show ?thesis ..
qed

lemma save_docs_count:
  "count_list (inserted (index_log (save_docs faults w))) x
     + count_list (node_stack (save_docs faults w)) x
   \<le> count_list (inserted (index_log w)) x + count_list (node_stack w) x"
proof -
  obtain n where
    "inserted (index_log (save_docs faults w)) = inserted (index_log w) @ take n (node_stack w)"
    using save_docs_inserted by blast
  then show ?thesis
    using count_list_take [of n "node_stack w" x] by (simp add: save_docs_clears)
qed

text \<open>
  Each iteration keeps the balance: what is in the index plus what waits on the stack never
  exceeds what was there before plus what the item brought.
\<close>

lemma write_step_count:
  "count_list (inserted (index_log (write_step faults c w))) x
     + count_list (node_stack (write_step faults c w)) x
   \<le> count_list (inserted (index_log w)) x + count_list (node_stack w) x
       + count_list (received [c]) x"
proof (cases c)
  case (Process f ds ns)
  let ?w1 = "w\<lparr>node_stack := node_stack w @ ns, doc_stack := doc_stack w @ ds,
                 file_stack := file_stack w @ [f]\<rparr>"
  show ?thesis
  proof (cases "NODE_FLUSH_COUNT \<le> length (node_stack w @ ns)")
    case True
    then have "write_step faults c w = save_docs faults ?w1"
      by (simp add: Process Let_def)
    with save_docs_count [of faults ?w1 x] show ?thesis by (simp add: Process)
  next
    case False
    then have "write_step faults c w = ?w1" by (simp add: Process Let_def)
    then show ?thesis by (simp add: Process)
  qed
next
  case Flush
  with save_docs_count [of faults w x] show ?thesis by simp
next
  case Quit
  with save_docs_count [of faults w x] show ?thesis by simp
qed

lemma write_nodes_count:
  "count_list (inserted (index_log (write_nodes faults cmds w))) x
   \<le> count_list (inserted (index_log w)) x + count_list (node_stack w) x
       + count_list (received cmds) x"
proof (induction cmds arbitrary: w)
  case Nil
  then show ?case by simp
next
  case (Cons c cmds)
  show ?case
  proof (cases c)
    case Quit
    with write_step_count [of faults Quit w x] show ?thesis by simp
  next
    case Flush
    with Cons.IH [of "write_step faults c w"] write_step_count [of faults c w x]
    show ?thesis by simp
  next
    case (Process f ds ns)
    with Cons.IH [of "write_step faults c w"] write_step_count [of faults c w x]
    show ?thesis by simp
  qed
qed






text \<open>
  Claim C6. After every flush attempt of the writer stage, whether the index write succeeded
  or raised, the three stacks (files, documents, nodes) are empty. Consequently, over any
  run of the writer loop and any pattern of failing flushes, no node reaches the index more
  often than it was handed to the writer: a node accumulated once is inserted at most once.
\<close>

theorem flush_clears_stacks_no_double_insert:
  "node_stack (save_docs faults w) = [] \<and> doc_stack (save_docs faults w) = []
   \<and> file_stack (save_docs faults w) = []
   \<and> count_list (inserted (index_log (write_nodes faults cmds writer_init))) x
       \<le> count_list (received cmds) x"
  using write_nodes_count [of faults cmds writer_init x]
  by (simp add: save_docs_clears writer_init_def)

text \<open>
  Claim C7, as the code has it. The claim that \<^verbatim>\<open>doc_q\<close> has a capacity equal to the worker
  count fails: with two workers the queue still holds 20 items.
\<close>

theorem doc_q_capacity_counterexample:
  "pipeline_init 2 2 =
     Inr \<lparr>count_workers = 2, doc_semaphore = 2, doc_q_maxsize = 20, node_q_maxsize = 40\<rparr>
   \<and> int (doc_q_maxsize
            \<lparr>count_workers = 2, doc_semaphore = 2, doc_q_maxsize = 20, node_q_maxsize = 40\<rparr>)
     \<noteq> count_workers
            \<lparr>count_workers = 2, doc_semaphore = 2, doc_q_maxsize = 20, node_q_maxsize = 40\<rparr>"
  by (simp add: pipeline_init_def)

text \<open>
  Claim C7, amended. For every worker count with which the component can be built, the
  semaphore that admits embedding work starts at the worker count, \<^verbatim>\<open>doc_q\<close> has the fixed
  capacity 20 and \<^verbatim>\<open>node_q\<close> the fixed capacity 40, strictly larger than that of \<^verbatim>\<open>doc_q\<close>.
\<close>

theorem pipeline_queue_capacities:
  "pipeline_init n_transformations workers = Inr cfg \<Longrightarrow>
   0 < workers \<and> count_workers cfg = workers \<and> doc_semaphore cfg = workers
   \<and> doc_q_maxsize cfg = 20 \<and> node_q_maxsize cfg = 40
   \<and> doc_q_maxsize cfg < node_q_maxsize cfg"
  by (auto simp: pipeline_init_def split: if_splits)

theorem pipeline_queue_capacities_witness:
  "pipeline_init 3 4 =
     Inr \<lparr>count_workers = 4, doc_semaphore = 4, doc_q_maxsize = 20, node_q_maxsize = 40\<rparr>
   \<and> doc_semaphore
        \<lparr>count_workers = 4, doc_semaphore = 4, doc_q_maxsize = 20, node_q_maxsize = 40\<rparr> = 4
   \<and> doc_q_maxsize
        \<lparr>count_workers = 4, doc_semaphore = 4, doc_q_maxsize = 20, node_q_maxsize = 40\<rparr>
     < node_q_maxsize
        \<lparr>count_workers = 4, doc_semaphore = 4, doc_q_maxsize = 20, node_q_maxsize = 40\<rparr>"
proof -
  have h: "pipeline_init 3 4 =
     Inr \<lparr>count_workers = 4, doc_semaphore = 4, doc_q_maxsize = 20, node_q_maxsize = 40\<rparr>"
    by (simp add: pipeline_init_def)
  show ?thesis using h pipeline_queue_capacities [OF h] by simp
qed

section \<open>Properties of \<^verbatim>\<open>extract_document\<close>\<close>






text \<open>
  Claim C10, at a failing input. Every step succeeds except the removal of the temporary
  file in the \<^verbatim>\<open>finally\<close> block (on Windows \<^verbatim>\<open>os.unlink\<close> of the still open temporary file is
  refused). The call returns the mapping with status \<^verbatim>\<open>error\<close>, without extraction id and
  document id, and yet \<^verbatim>\<open>result.json\<close> has been written for the document id with status
  \<^verbatim>\<open>completed\<close>: the stored extraction state changed on an error.
\<close>

theorem extract_document_error_after_store:
  "fst (extract_document
          \<lparr>uuid4 = ''u1'', now_iso = ''t0'', chunks_mkdir = None, chunks_write = WriteOk,
           get_agent = Inr (\<lambda>c. Inr (JDict [(''plan'', JStr ''gold'')])),
           create_agent = Inl (RuntimeError ''unused''), temp_file = None,
           result_mkdir = None, result_write = WriteOk,
           unlink = Some (OSError ''PermissionError'')\<rparr>
          [] ''Benefit'' ''policy.pdf'' ''d1'' None Map.empty)
     = Inr [(''error'', JStr ''PermissionError''), (''document_type'', JStr ''Benefit''),
            (''file_name'', JStr ''policy.pdf''), (''status'', JStr ''error'')]
   \<and> snd (extract_document
          \<lparr>uuid4 = ''u1'', now_iso = ''t0'', chunks_mkdir = None, chunks_write = WriteOk,
           get_agent = Inr (\<lambda>c. Inr (JDict [(''plan'', JStr ''gold'')])),
           create_agent = Inl (RuntimeError ''unused''), temp_file = None,
           result_mkdir = None, result_write = WriteOk,
           unlink = Some (OSError ''PermissionError'')\<rparr>
          [] ''Benefit'' ''policy.pdf'' ''d1'' None Map.empty) (''d1'', ''result.json'')
     = Some (Complete (JDict
         [(''extraction_id'', JStr ''u1''), (''doc_id'', JStr ''d1''),
          (''document_type'', JStr ''Benefit''), (''file_name'', JStr ''policy.pdf''),
          (''status'', JStr ''completed''), (''result'', JDict [(''plan'', JStr ''gold'')]),
          (''timestamp'', JStr ''t0'')]))"
  by (simp add: extract_document_def extract_body_def Let_def store_extraction_data_def
        write_json_def try_finally_def extract_and_store_def error_mapping_def
        stored_record_def completed_mapping_def)

section \<open>Properties of the background save task\<close>

lemma update_phase_ledger: "ledger (update_phase doc phase st) = ledger st @ [(doc, phase)]"
  by (simp add: update_phase_def)

lemma rag_loop_ledger: "ledger (snd (rag_loop env batches acc st)) = ledger st"
proof (induction batches arbitrary: acc st)
  case Nil
  then show ?case by simp
next
  case (Cons b batches)
  show ?case
  proof (cases "extract_with_rag env b")
    case (Inl e)
    then show ?thesis by (simp add: call_rag_def)
  next
    case (Inr res)
    then show ?thesis by (simp add: call_rag_def Cons.IH)
  qed
qed

lemma write_back_ledger:
  "ledger (snd (write_back env doc extraction_data extraction_result rag_results st)) = ledger st"
  by (cases extraction_result) (simp_all add: write_back_def Let_def case_prod_beta)

lemma simple_fill_missing_ledger:
  "ledger (snd (simple_fill_missing env doc extraction_data extraction_result missing st))
     = ledger st"
proof -
  obtain r st1 where loop: "rag_loop env (batch_fields missing 10) [] st = (r, st1)"
    by (cases "rag_loop env (batch_fields missing 10) [] st")
  with rag_loop_ledger [of env "batch_fields missing 10" "[]" st]
  have "ledger st1 = ledger st" by simp
  then show ?thesis
    unfolding simple_fill_missing_def
    by (simp add: loop write_back_ledger split: option.splits sum.splits)
qed

lemma parallel_fill_missing_ledger:
  "ledger (snd (parallel_fill_missing env doc extraction_data extraction_result missing st))
     = ledger st"
  unfolding parallel_fill_missing_def
  by (simp add: call_rag_def write_back_ledger split: option.splits sum.splits json.splits)

lemma fill_missing_ledger:
  "ledger (snd (fill_missing var env doc extraction_data extraction_result missing st))
     = ledger st"
  by (cases var) (simp_all add: simple_fill_missing_ledger parallel_fill_missing_ledger)

text \<open>The reconciliation block writes nothing, or \<^verbatim>\<open>completed\<close> once.\<close>

lemma rag_block_ledger:
  "ledger (snd (rag_block var env doc documents st)) = ledger st
   \<or> ledger (snd (rag_block var env doc documents st)) = ledger st @ [(doc, ''completed'')]"
proof (cases documents)
  case Nil
  then show ?thesis by (simp add: rag_block_def)
next
  case (Cons d0 ds)
  show ?thesis
  proof (cases "files st (doc, ''result.json'')")
    case None
    with Cons show ?thesis by (simp add: rag_block_def)
  next
    case (Some content)
    show ?thesis
    proof (cases content)
      case Truncated
      with Cons Some show ?thesis by (simp add: rag_block_def)
    next
      case (Complete j)
      show ?thesis
      proof (cases "\<exists>extraction_data. j = JDict extraction_data")
        case False
        with Cons Some Complete show ?thesis
          by (cases j) (simp_all add: rag_block_def)
      next
        case True
        then obtain extraction_data where j: "j = JDict extraction_data" by blast
        define extraction_result where
          "extraction_result =
             (case map_of extraction_data ''result'' of None \<Rightarrow> JDict [] | Some r \<Rightarrow> r)"
        show ?thesis
        proof (cases "has_missing_fields env extraction_result")
          case (Inl e)
          with Cons Some Complete j show ?thesis
            by (simp add: rag_block_def Let_def extraction_result_def)
        next
          case (Inr missing)
          obtain r st1 where
            fm: "fill_missing var env doc extraction_data extraction_result missing st = (r, st1)"
            by (cases "fill_missing var env doc extraction_data extraction_result missing st")
          with fill_missing_ledger [of var env doc extraction_data extraction_result missing st]
          have led: "ledger st1 = ledger st" by simp
          from Cons Some Complete j Inr fm led show ?thesis
            by (cases r)
               (simp_all add: rag_block_def Let_def extraction_result_def [symmetric]
                  update_phase_ledger)
        qed
      qed
    qed
  qed
qed

lemma fork_join_ledger:
  "\<exists>ws. ledger (snd (fork_join var env file_name doc documents st))
          = ledger st @ map (Pair doc) ws"
proof -
  have "ledger (snd (fork_join var env file_name doc documents st))
          = ledger st @ map (Pair doc)
              (interleave (schedule env) (extraction_thread_phases var)
                 (embedding_thread_phases var))"
    by (simp add: fork_join_def Let_def case_prod_beta)
  then show ?thesis ..
qed

text \<open>Every write of the body of the task is a write for the document id of the task.\<close>

lemma save_task_body_ledger:
  "\<exists>ws. ledger (snd (save_task_body var env file_name doc st)) = ledger st @ map (Pair doc) ws"
proof (cases "wait_for_document_entry env")
  case (Inl e)
  then have "ledger (snd (save_task_body var env file_name doc st)) = ledger st @ map (Pair doc) []"
    by (simp add: save_task_body_def)
  then show ?thesis ..
next
  case found: (Inr b)
  show ?thesis
  proof (cases "parse_documents env file_name doc")
    case (Inl e)
    with found
    have "ledger (snd (save_task_body var env file_name doc st))
            = ledger st @ map (Pair doc) [''parsing'']"
      by (simp add: save_task_body_def Let_def update_phase_ledger)
    then show ?thesis ..
  next
    case (Inr documents)
    let ?st1 = "update_phase doc ''parsing'' st"
    obtain documents1 st2 where
      fj: "fork_join var env file_name doc documents ?st1 = (documents1, st2)"
      by (cases "fork_join var env file_name doc documents ?st1")
    from fork_join_ledger [of var env file_name doc documents ?st1]
    obtain ws where
      "ledger (snd (fork_join var env file_name doc documents ?st1))
         = ledger ?st1 @ map (Pair doc) ws"
      by blast
    then have st2: "ledger st2 = ledger st @ map (Pair doc) (''parsing'' # ws)"
      by (simp add: fj update_phase_ledger)
    let ?st3 = "update_phase doc ''rag'' st2"
    obtain r st4 where rb: "rag_block var env doc documents1 ?st3 = (r, st4)"
      by (cases "rag_block var env doc documents1 ?st3")
    with rag_block_ledger [of var env doc documents1 ?st3]
    have "ledger st4 = ledger ?st3 \<or> ledger st4 = ledger ?st3 @ [(doc, ''completed'')]"
      by simp
    then have "ledger st4 = ledger ?st3 @ map (Pair doc) []
               \<or> ledger st4 = ledger ?st3 @ map (Pair doc) [''completed'']"
      by simp
    then obtain vs where st4: "ledger st4 = ledger ?st3 @ map (Pair doc) vs"
      by blast
    have body: "snd (save_task_body var env file_name doc st) =
          (case r of Inl e \<Rightarrow> update_phase doc ''completed'' st4 | Inr u \<Rightarrow> st4)"
      using found Inr fj rb by (simp add: save_task_body_def Let_def split: sum.splits)
    show ?thesis
    proof (cases r)
      case (Inl e)
      with body st4 st2
      have "ledger (snd (save_task_body var env file_name doc st))
            = ledger st @ map (Pair doc) (''parsing'' # ws @ [''rag''] @ vs @ [''completed''])"
        by (simp add: update_phase_ledger)
      then show ?thesis ..
    next
      case (Inr u)
      with body st4 st2
      have "ledger (snd (save_task_body var env file_name doc st))
            = ledger st @ map (Pair doc) (''parsing'' # ws @ [''rag''] @ vs)"
        by (simp add: update_phase_ledger)
      then show ?thesis ..
    qed
  qed
qed

lemma save_task_ledger:
  "\<exists>ws. ledger (save_task var env file_name doc st)
          = ledger st @ map (Pair doc) (ws @ [''completed''])"
proof -
  obtain r st1 where body: "save_task_body var env file_name doc st = (r, st1)"
    by (cases "save_task_body var env file_name doc st")
  from save_task_body_ledger [of var env file_name doc st]
  obtain ws where
    "ledger (snd (save_task_body var env file_name doc st)) = ledger st @ map (Pair doc) ws"
    by blast
  then have st1: "ledger st1 = ledger st @ map (Pair doc) ws"
    by (simp add: body)
  show ?thesis
  proof (cases r)
    case (Inl e)
    have "save_task var env file_name doc st
            = update_phase doc ''completed'' (update_phase doc ''error'' st1)"
      by (simp add: save_task_def body Inl)
    then have eq: "ledger (save_task var env file_name doc st)
            = ledger st @ map (Pair doc) ((ws @ [''error'']) @ [''completed''])"
      by (simp add: update_phase_ledger st1)
    show ?thesis by (rule exI) (rule eq)
  next
    case (Inr u)
    have "save_task var env file_name doc st = update_phase doc ''completed'' st1"
      by (simp add: save_task_def body Inr)
    then have eq: "ledger (save_task var env file_name doc st)
            = ledger st @ map (Pair doc) (ws @ [''completed''])"
      by (simp add: update_phase_ledger st1)
    show ?thesis by (rule exI) (rule eq)
  qed
qed

text \<open>
  Claim C1. For every document id processed by a background save task, in
  \<^verbatim>\<open>SimpleIngestComponent\<close> and in \<^verbatim>\<open>ParallelizedIngestComponent\<close>, under every behaviour of
  the collaborators and every interleaving of the two threads: the last phase written for the
  id when the task ends is \<^verbatim>\<open>completed\<close>, and whenever the task writes \<^verbatim>\<open>error\<close>, a write of
  \<^verbatim>\<open>completed\<close> for the same id follows it.
\<close>

theorem save_task_ends_completed:
  "last (phases_of doc (save_task var env file_name doc st)) = ''completed''
   \<and> (ledger (save_task var env file_name doc st)
        = ledger st @ map (Pair doc) (before @ ''error'' # after)
      \<longrightarrow> ''completed'' \<in> set after)"
proof -
  obtain ws where
    led: "ledger (save_task var env file_name doc st)
            = ledger st @ map (Pair doc) (ws @ [''completed''])"
    using save_task_ledger by blast
  have "phases_of doc (save_task var env file_name doc st)
          = map snd (filter (\<lambda>w. fst w = doc) (ledger st)) @ ws @ [''completed'']"
    by (simp add: phases_of_def led filter_map comp_def)
  then have last_completed: "last (phases_of doc (save_task var env file_name doc st)) = ''completed''"
    by simp
  have follows: "''completed'' \<in> set after"
    if eq: "ledger (save_task var env file_name doc st)
              = ledger st @ map (Pair doc) (before @ ''error'' # after)"
  proof -
    from eq led have "map (Pair doc) (ws @ [''completed''])
                        = map (Pair doc) (before @ ''error'' # after)"
      by simp
    then have same: "ws @ [''completed''] = before @ ''error'' # after"
      by (simp add: inj_map_eq_map inj_on_def del: map_append)
    have "after \<noteq> []"
    proof
      assume "after = []"
      with same have "last (ws @ [''completed'']) = last (before @ [''error''])" by simp
      then show False by simp
    qed
    with same have "last (ws @ [''completed'']) = last after" by simp
    then have "last after = ''completed''" by simp
    with \<open>after \<noteq> []\<close> show ?thesis by (metis last_in_set)
  qed
  from last_completed follows show ?thesis by blast
qed

theorem save_task_ends_completed_witness:
  "ledger (save_task Simple
             \<lparr>wait_for_document_entry = Inr True,
              transform_file_into_documents = Inl (ValueError ''corrupt file''),
              extraction_env =
                \<lparr>uuid4 = ''u1'', now_iso = ''t0'', chunks_mkdir = None, chunks_write = WriteOk,
                 get_agent = Inr (\<lambda>c. Inr (JDict [])),
                 create_agent = Inl (RuntimeError ''unused''), temp_file = None,
                 result_mkdir = None, result_write = WriteOk, unlink = None\<rparr>,
              schedule = [], has_missing_fields = (\<lambda>r. Inr []), load_company_config = None,
              extract_with_rag = (\<lambda>b. Inr (JDict [])), result_rewrite = WriteOk\<rparr>
             ''policy.pdf'' ''d1'' \<lparr>ledger = [], files = Map.empty, rag_calls = []\<rparr>)
     = ledger \<lparr>ledger = [], files = Map.empty, rag_calls = []\<rparr>
       @ map (Pair ''d1'') ([''parsing''] @ ''error'' # [''completed''])
   \<and> ''completed'' \<in> set [''completed'']
   \<and> last (phases_of ''d1'' (save_task Simple
             \<lparr>wait_for_document_entry = Inr True,
              transform_file_into_documents = Inl (ValueError ''corrupt file''),
              extraction_env =
                \<lparr>uuid4 = ''u1'', now_iso = ''t0'', chunks_mkdir = None, chunks_write = WriteOk,
                 get_agent = Inr (\<lambda>c. Inr (JDict [])),
                 create_agent = Inl (RuntimeError ''unused''), temp_file = None,
                 result_mkdir = None, result_write = WriteOk, unlink = None\<rparr>,
              schedule = [], has_missing_fields = (\<lambda>r. Inr []), load_company_config = None,
              extract_with_rag = (\<lambda>b. Inr (JDict [])), result_rewrite = WriteOk\<rparr>
             ''policy.pdf'' ''d1'' \<lparr>ledger = [], files = Map.empty, rag_calls = []\<rparr>))
     = ''completed''"
proof -
  let ?env = "\<lparr>wait_for_document_entry = Inr True,
              transform_file_into_documents = Inl (ValueError ''corrupt file''),
              extraction_env =
                \<lparr>uuid4 = ''u1'', now_iso = ''t0'', chunks_mkdir = None, chunks_write = WriteOk,
                 get_agent = Inr (\<lambda>c. Inr (JDict [])),
                 create_agent = Inl (RuntimeError ''unused''), temp_file = None,
                 result_mkdir = None, result_write = WriteOk, unlink = None\<rparr>,
              schedule = [], has_missing_fields = (\<lambda>r. Inr []), load_company_config = None,
              extract_with_rag = (\<lambda>b. Inr (JDict [])), result_rewrite = WriteOk\<rparr>"
  let ?st = "\<lparr>ledger = [], files = Map.empty, rag_calls = []\<rparr>"
  have h: "ledger (save_task Simple ?env ''policy.pdf'' ''d1'' ?st)
             = ledger ?st @ map (Pair ''d1'') ([''parsing''] @ ''error'' # [''completed''])"
    by (simp add: save_task_def save_task_body_def parse_documents_def update_phase_def Let_def)
  from save_task_ends_completed
         [where var = Simple and env = ?env and file_name = "''policy.pdf''" and doc = "''d1''"
            and st = ?st and before = "[''parsing'']" and after = "[''completed'']"]
  have "last (phases_of ''d1'' (save_task Simple ?env ''policy.pdf'' ''d1'' ?st)) = ''completed''"
    and "''completed'' \<in> set [''completed'']"
    using h by blast+
  with h show ?thesis by blast
qed

text \<open>
  The batches of \<^verbatim>\<open>batch_fields\<close>: none is longer than the batch size, and together they are
  the field list. The calls of the batched loop of \<^verbatim>\<open>SimpleIngestComponent\<close> are these
  batches, up to the first call that raises.
\<close>

lemma batch_fields_bound: "b \<in> set (batch_fields xs n) \<Longrightarrow> length b \<le> n"
proof (induction xs n rule: batch_fields.induct)
  case (1 fields batch_size)
  show ?case
  proof (cases "batch_size = 0 \<or> fields = []")
    case True
    with "1.prems" show ?thesis by (simp add: batch_fields.simps [of fields])
  next
    case False
    with "1.prems" have "b = take batch_size fields
        \<or> b \<in> set (batch_fields (drop batch_size fields) batch_size)"
      by (simp add: batch_fields.simps [of fields])
    with "1.IH" [OF False] show ?thesis by auto
  qed
qed

lemma concat_batch_fields: "0 < n \<Longrightarrow> concat (batch_fields xs n) = xs"
proof (induction xs n rule: batch_fields.induct)
  case (1 fields batch_size)
  show ?case
  proof (cases "fields = []")
    case True
    then show ?thesis by (simp add: batch_fields.simps [of "[]"])
  next
    case False
    with "1.prems" have ne: "\<not> (batch_size = 0 \<or> fields = [])" by simp
    from "1.IH" [OF ne "1.prems"] ne show ?thesis
      by (simp add: batch_fields.simps [of fields])
  qed
qed

lemma rag_loop_calls:
  "\<exists>k. rag_calls (snd (rag_loop env batches acc st)) = rag_calls st @ take k batches"
proof (induction batches arbitrary: acc st)
  case Nil
  then show ?case by simp
next
  case (Cons b batches)
  show ?case
  proof (cases "extract_with_rag env b")
    case (Inl e)
    then have "rag_calls (snd (rag_loop env (b # batches) acc st))
                 = rag_calls st @ take 1 (b # batches)"
      by (simp add: call_rag_def)
    then show ?thesis ..
  next
    case (Inr res)
    let ?st1 = "st\<lparr>rag_calls := rag_calls st @ [b]\<rparr>"
    from Cons.IH [of "deep_merge acc res" ?st1]
    obtain k where "rag_calls (snd (rag_loop env batches (deep_merge acc res) ?st1))
                      = rag_calls ?st1 @ take k batches"
      by blast
    with Inr have "rag_calls (snd (rag_loop env (b # batches) acc st))
                     = rag_calls st @ take (Suc k) (b # batches)"
      by (simp add: call_rag_def)
    then show ?thesis ..
  qed
qed

lemma batch_fields_25:
  "batch_fields (replicate 25 x) 10 = [replicate 10 x, replicate 10 x, replicate 5 x]"
proof -
  have "batch_fields (replicate 5 x) 10 = [replicate 5 x]"
    by (simp add: batch_fields.simps [of "replicate 5 x"] batch_fields.simps [of "[]"])
  then have "batch_fields (replicate 15 x) 10 = [replicate 10 x, replicate 5 x]"
    by (simp add: batch_fields.simps [of "replicate 15 x"])
  then show ?thesis
    by (simp add: batch_fields.simps [of "replicate 25 x"])
qed

text \<open>
  Claim C3, at a failing input. A document with 25 missing fields, a query service that
  answers every call with an empty mapping, and an extraction record whose result is a
  dictionary. \<^verbatim>\<open>SimpleIngestComponent\<close> issues three calls, of 10, 10 and 5 fields.
  \<^verbatim>\<open>ParallelizedIngestComponent\<close> issues one call with all 25 fields: the bound of 10 fields
  per call does not hold in that variant.
\<close>

theorem parallelized_reconcile_single_call:
  "map length (rag_calls (snd (parallel_fill_missing
       \<lparr>wait_for_document_entry = Inr True, transform_file_into_documents = Inr [],
        extraction_env =
          \<lparr>uuid4 = ''u1'', now_iso = ''t0'', chunks_mkdir = None, chunks_write = WriteOk,
           get_agent = Inr (\<lambda>c. Inr (JDict [])),
           create_agent = Inl (RuntimeError ''unused''), temp_file = None,
           result_mkdir = None, result_write = WriteOk, unlink = None\<rparr>,
        schedule = [], has_missing_fields = (\<lambda>r. Inr (replicate 25 ''field'')),
        load_company_config = None,
        extract_with_rag = (\<lambda>b. Inr (JDict [])), result_rewrite = WriteOk\<rparr>
       ''d1'' [(''result'', JDict [(''plan'', JStr ''gold'')])] (JDict [(''plan'', JStr ''gold'')])
       (replicate 25 ''field'') \<lparr>ledger = [], files = Map.empty, rag_calls = []\<rparr>)))
     = [25]
   \<and> map length (rag_calls (snd (simple_fill_missing
       \<lparr>wait_for_document_entry = Inr True, transform_file_into_documents = Inr [],
        extraction_env =
          \<lparr>uuid4 = ''u1'', now_iso = ''t0'', chunks_mkdir = None, chunks_write = WriteOk,
           get_agent = Inr (\<lambda>c. Inr (JDict [])),
           create_agent = Inl (RuntimeError ''unused''), temp_file = None,
           result_mkdir = None, result_write = WriteOk, unlink = None\<rparr>,
        schedule = [], has_missing_fields = (\<lambda>r. Inr (replicate 25 ''field'')),
        load_company_config = None,
        extract_with_rag = (\<lambda>b. Inr (JDict [])), result_rewrite = WriteOk\<rparr>
       ''d1'' [(''result'', JDict [(''plan'', JStr ''gold'')])] (JDict [(''plan'', JStr ''gold'')])
       (replicate 25 ''field'') \<lparr>ledger = [], files = Map.empty, rag_calls = []\<rparr>)))
     = [10, 10, 5]"
  by (simp add: parallel_fill_missing_def simple_fill_missing_def call_rag_def write_back_def
        write_json_def Let_def batch_fields_25)

section \<open>Properties of \<^verbatim>\<open>ingest\<close>\<close>

text \<open>
  Claim C8. When the original file can be stored, a call of \<^verbatim>\<open>ingest(file_name, file_data)\<close>
  on \<^verbatim>\<open>SimpleIngestComponent\<close>, and on \<^verbatim>\<open>ParallelizedIngestComponent\<close> built with an extraction
  component, stores the file, draws a new identifier from \<^verbatim>\<open>uuid.uuid4()\<close>, and returns one
  stub document with empty text whose metadata holds the file name and the new id. Its only
  other effect is one more thread started on \<^verbatim>\<open>save_task\<close> for that file and id: the phase
  ledger, the extraction results and the index are as they were when the call returns, so
  parsing, extraction and embedding are left to the background thread.
\<close>

theorem ingest_returns_stub:
  assumes "store_original_file env file_name file_data = Inr stored_file_path"
  shows "simple_ingest env file_name file_data s =
           (Inr [\<lparr>doc_id = uuid_supply env (uuid_count s), doc_text = [],
                  metadata = [(''file_name'', JStr file_name),
                              (''doc_id'', JStr (uuid_supply env (uuid_count s)))]\<rparr>],
            s\<lparr>originals := originals s @ [(file_name, stored_file_path)],
              uuid_count := Suc (uuid_count s),
              threads := threads s
                @ [(file_name, stored_file_path, uuid_supply env (uuid_count s))]\<rparr>)
         \<and> parallel_ingest env True file_name file_data s
             = simple_ingest env file_name file_data s
         \<and> task (snd (simple_ingest env file_name file_data s)) = task s
         \<and> saved_docs (snd (simple_ingest env file_name file_data s)) = saved_docs s"
  using assms
  by (simp add: simple_ingest_def parallel_ingest_def Let_def background_save_docs_def
        stub_document_def)

theorem ingest_returns_stub_witness:
  "store_original_file
     \<lparr>store_original_file = (\<lambda>n p. Inr (''store/'' @ n)), uuid_supply = (\<lambda>n. replicate n CHR ''u''),
      pool_transform = (\<lambda>n p. Inr []), save_docs_raises = None\<rparr>
     ''policy.pdf'' ''/tmp/upload'' = Inr ''store/policy.pdf''
   \<and> fst (simple_ingest
        \<lparr>store_original_file = (\<lambda>n p. Inr (''store/'' @ n)),
         uuid_supply = (\<lambda>n. replicate n CHR ''u''),
         pool_transform = (\<lambda>n p. Inr []), save_docs_raises = None\<rparr>
        ''policy.pdf'' ''/tmp/upload''
        \<lparr>originals = [], uuid_count = 2, threads = [],
         task = \<lparr>ledger = [], files = Map.empty, rag_calls = []\<rparr>, saved_docs = []\<rparr>)
     = Inr [\<lparr>doc_id = ''uu'', doc_text = [],
             metadata = [(''file_name'', JStr ''policy.pdf''), (''doc_id'', JStr ''uu'')]\<rparr>]
   \<and> threads (snd (parallel_ingest
        \<lparr>store_original_file = (\<lambda>n p. Inr (''store/'' @ n)),
         uuid_supply = (\<lambda>n. replicate n CHR ''u''),
         pool_transform = (\<lambda>n p. Inr []), save_docs_raises = None\<rparr>
        True ''policy.pdf'' ''/tmp/upload''
        \<lparr>originals = [], uuid_count = 2, threads = [],
         task = \<lparr>ledger = [], files = Map.empty, rag_calls = []\<rparr>, saved_docs = []\<rparr>))
     = [(''policy.pdf'', ''store/policy.pdf'', ''uu'')]"
proof -
  let ?env = "\<lparr>store_original_file = (\<lambda>n p. Inr (''store/'' @ n)),
               uuid_supply = (\<lambda>n. replicate n CHR ''u''),
               pool_transform = (\<lambda>n p. Inr []), save_docs_raises = None\<rparr>"
  let ?s = "\<lparr>originals = [], uuid_count = 2, threads = [],
             task = \<lparr>ledger = [], files = Map.empty, rag_calls = []\<rparr>, saved_docs = []\<rparr>"
  have h: "store_original_file ?env ''policy.pdf'' ''/tmp/upload'' = Inr ''store/policy.pdf''"
    by simp
  have two: "replicate 2 CHR ''u'' = ''uu''"
    by (simp add: numeral_2_eq_2)
  show ?thesis
    using h ingest_returns_stub [OF h, of ?s] by (simp add: two)
qed

end
